theory Spec2Isabelle
  imports Main
begin

section \<open>Integers and arrays of the C++ source\<close>

text \<open>
  The library is a pair of class templates, \<open>index_bucket\<close> and \<open>index_table\<close>, over a
  value type \<open>T\<close> and a bucket size \<open>S\<close>.  The repository holds the header twice:
  \<open>index_table.hpp\<close>, and a revision of it that adds the member \<open>bucket_hiindex\<close>
  and is called the revised header below.  Both are modelled; the names of the members
  of \<open>index_table.hpp\<close> that differ carry the suffix \<open>_hpp\<close>.  The template
  parameter \<open>S\<close> is a parameter \<open>S :: nat\<close> of every function below, and the
  value-initialised \<open>T()\<close> is a parameter \<open>T0\<close>.

  \<open>int32_t\<close> values (slot indices, bucket indices, identifiers) are modelled as
  \<open>int\<close> and \<open>size_t\<close> values (the fill counter, \<open>S\<close>, counts) as \<open>nat\<close>;
  \<open>size_t\<close> is taken to be 64 bits wide.  Where the C++ converts between the two
  types the model applies the conversion: \<open>int32_t\<close> below to a number that is stored
  in or returned as an \<open>int32_t\<close> or an \<open>int\<close> (two's complement, as C++20 defines
  it), \<open>size_t\<close> below to an \<open>int32_t\<close> that meets a \<open>size_t\<close> in an arithmetic
  operation or a comparison, and \<open>mod 2^64\<close> to \<open>size_t\<close> arithmetic.  The one
  addition of two \<open>int32_t\<close> in the source, \<open>bucket_hiindex + 1\<close>, is taken in
  \<open>int\<close>: it leaves the range of \<open>int32_t\<close> only after \<open>2^31\<close> buckets were
  created, where C++ defines no result.
\<close>

definition size_t :: "int \<Rightarrow> nat" where
  "size_t i = nat (i mod 2 ^ 64)"

definition int32_t :: "int \<Rightarrow> int" where
  "int32_t i = (i + 2 ^ 31) mod 2 ^ 32 - 2 ^ 31"

text \<open>
  The value of the expression \<open>index + (bucket_index * S)\<close>, which several members
  return or store as an \<open>int32_t\<close>: \<open>index\<close> and \<open>bucket_index\<close> are \<open>int32_t\<close> and
  \<open>S\<close> is a \<open>size_t\<close>, so both are converted to \<open>size_t\<close>, the product and the sum
  are taken in \<open>size_t\<close>, and the result is converted to \<open>int32_t\<close>.
\<close>

definition table_index :: "nat \<Rightarrow> int \<Rightarrow> int \<Rightarrow> int" where
  "table_index S index bindex =
     int32_t (int ((size_t index + size_t bindex * S) mod 2 ^ 64))"

text \<open>
  \<open>std::distance(first, std::find_if(first, last, p))\<close>: the position of the first
  element that satisfies \<open>p\<close>, or the length of the range when there is none.
\<close>

primrec find_if :: "('a \<Rightarrow> bool) \<Rightarrow> 'a list \<Rightarrow> nat" where
  "find_if p [] = 0"
| "find_if p (x # xs) = (if p x then 0 else Suc (find_if p xs))"

text \<open>\<open>std::vector::erase(iter)\<close> for the iterator at position \<open>i\<close>.\<close>

definition erase :: "nat \<Rightarrow> 'a list \<Rightarrow> 'a list" where
  "erase i xs = take i xs @ drop (Suc i) xs"

text \<open>
  A store \<open>items[i] = v\<close> into the array \<open>T items[S]\<close>.  A store at \<open>i \<ge> S\<close>
  writes outside the array; the model stops there with a fault.
\<close>

datatype fault = OutOfBoundsStore nat

definition store :: "nat \<Rightarrow> 'a list \<Rightarrow> nat \<Rightarrow> 'a \<Rightarrow> fault + 'a list" where
  "store S xs i v = (if i < S then Inr (xs[i := v]) else Inl (OutOfBoundsStore i))"

section \<open>The bucket\<close>

text \<open>
  \<open>class index_bucket\<close>: the array \<open>T items[S]\<close> (a list of length \<open>S\<close>), the
  counter \<open>size_t filled\<close> and \<open>int32_t bucket_index\<close>.
\<close>

record 'a index_bucket =
  items :: "'a list"
  filled :: nat
  bucket_index :: int

text \<open>
  The constructor \<open>index_bucket(bucket_index)\<close>.  Its parameter is a \<open>size_t\<close> that
  is stored in the \<open>int32_t\<close> member; the callers pass an \<open>int32_t\<close>, which this
  conversion there and back returns.
\<close>

definition new_index_bucket :: "nat \<Rightarrow> 'a \<Rightarrow> int \<Rightarrow> 'a index_bucket" where
  "new_index_bucket S T0 bindex =
     \<lparr>items = replicate S T0, filled = 0, bucket_index = bindex\<rparr>"

text \<open>
  \<open>get_index\<close> and \<open>item\<close> store the distance in an \<open>int32_t\<close> and compare it
  with the \<open>size_t\<close> \<open>S\<close>.
\<close>

definition get_index :: "nat \<Rightarrow> 'a \<Rightarrow> 'a index_bucket \<Rightarrow> int" where
  "get_index S T0 b =
     (let index = int32_t (int (find_if (\<lambda>itm. itm = T0) (items b)))
      in if size_t index \<noteq> S then index else - 1)"

definition item :: "nat \<Rightarrow> 'a index_bucket \<Rightarrow> 'a \<Rightarrow> int" where
  "item S b v =
     (let index = int32_t (int (find_if (\<lambda>itm. itm = v) (items b)))
      in if size_t index \<noteq> S then index else - 1)"

text \<open>
  \<open>index_bucket::insert\<close> of the revised header: it returns the offset in the
  bucket.  The guard \<open>index >= 0 && index < S\<close> keeps the store inside the array.
\<close>

definition bucket_insert :: "nat \<Rightarrow> 'a \<Rightarrow> 'a index_bucket \<Rightarrow> 'a \<Rightarrow> 'a index_bucket \<times> int" where
  "bucket_insert S T0 b v =
     (let index = get_index S T0 b
      in if 0 \<le> index \<and> size_t index < S
         then (b\<lparr>items := (items b)[nat index := v],
                  filled := size_t (int (filled b) + 1)\<rparr>, index)
         else (b, index))"

text \<open>
  \<open>index_bucket::remove\<close> of the revised header.  Its guard is \<open>index >= 0\<close>, and
  \<open>index\<close> is a distance stored in an \<open>int32_t\<close>, so the guarded block also runs
  when nothing was found (\<open>index = S\<close>).
\<close>

definition bucket_remove :: "nat \<Rightarrow> 'a \<Rightarrow> 'a index_bucket \<Rightarrow> 'a \<Rightarrow> fault + 'a index_bucket \<times> int" where
  "bucket_remove S T0 b v =
     (let index = int32_t (int (find_if (\<lambda>src. src = v) (items b)))
      in if 0 \<le> index
         then (case store S (items b) (nat index) T0 of
                 Inl f \<Rightarrow> Inl f
               | Inr xs \<Rightarrow>
                   Inr (b\<lparr>items := xs, filled := size_t (int (filled b) - 1)\<rparr>,
                        if size_t index \<noteq> S then index else - 1))
         else Inr (b, if size_t index \<noteq> S then index else - 1))"

text \<open>
  The same two members in \<open>index_table.hpp\<close>: they add \<open>bucket_index * S\<close> to the
  offset they return.
\<close>

definition bucket_insert_hpp :: "nat \<Rightarrow> 'a \<Rightarrow> 'a index_bucket \<Rightarrow> 'a \<Rightarrow> 'a index_bucket \<times> int" where
  "bucket_insert_hpp S T0 b v =
     (let index = get_index S T0 b
      in if 0 \<le> index \<and> size_t index < S
         then (b\<lparr>items := (items b)[nat index := v],
                  filled := size_t (int (filled b) + 1)\<rparr>,
               table_index S index (bucket_index b))
         else (b, table_index S index (bucket_index b)))"

definition bucket_remove_hpp :: "nat \<Rightarrow> 'a \<Rightarrow> 'a index_bucket \<Rightarrow> 'a \<Rightarrow> fault + 'a index_bucket \<times> int" where
  "bucket_remove_hpp S T0 b v =
     (let index = int32_t (int (find_if (\<lambda>src. src = v) (items b)))
      in if 0 \<le> index
         then (case store S (items b) (nat index) T0 of
                 Inl f \<Rightarrow> Inl f
               | Inr xs \<Rightarrow>
                   Inr (b\<lparr>items := xs, filled := size_t (int (filled b) - 1)\<rparr>,
                        if size_t index \<noteq> S then table_index S index (bucket_index b) else - 1))
         else Inr (b, if size_t index \<noteq> S then table_index S index (bucket_index b) else - 1))"

section \<open>The table of the revised header\<close>

text \<open>
  \<open>class index_table\<close>: the vector of buckets (each bucket is owned by exactly one
  pointer of the vector, so the vector is a list of buckets), the stack \<open>empty\<close> of
  released bucket indices (its top is the head of the list) and \<open>bucket_hiindex\<close>.
\<close>

record 'a index_table =
  buckets :: "'a index_bucket list"
  empty_stack :: "int list"
  bucket_hiindex :: int

text \<open>
  \<open>bucket()\<close> appends a new bucket and returns a pointer to it: here the new table and
  the position of the new bucket in the vector.  The sum \<open>bucket_hiindex + 1\<close> is an
  addition of \<open>int32_t\<close>, which has no defined result at \<open>2^31 - 1\<close>; it is taken in
  \<open>int\<close>.
\<close>

definition bucket :: "nat \<Rightarrow> 'a \<Rightarrow> 'a index_table \<Rightarrow> 'a index_table \<times> nat" where
  "bucket S T0 t =
     (let (bindex, t1) =
        (case empty_stack t of
           bi # rest \<Rightarrow> (bi, t\<lparr>empty_stack := rest\<rparr>)
         | [] \<Rightarrow>
             if length (buckets t) > 0
             then (bucket_hiindex t + 1, t\<lparr>bucket_hiindex := bucket_hiindex t + 1\<rparr>)
             else (0, t))
      in (t1\<lparr>buckets := buckets t1 @ [new_index_bucket S T0 bindex]\<rparr>,
          length (buckets t1)))"

text \<open>\<open>first()\<close>: the position of the first bucket with room, \<open>None\<close> for \<open>nullptr\<close>.\<close>

definition first :: "nat \<Rightarrow> 'a index_table \<Rightarrow> nat option" where
  "first S t =
     (let iter = find_if (\<lambda>bckt. filled bckt < S) (buckets t)
      in if iter = length (buckets t) then None else Some iter)"

text \<open>The constructor \<open>index_table(cache)\<close>: its loop calls \<open>bucket()\<close> \<open>cache\<close> times.\<close>

primrec cache_loop :: "nat \<Rightarrow> 'a \<Rightarrow> nat \<Rightarrow> 'a index_table \<Rightarrow> 'a index_table" where
  "cache_loop S T0 0 t = t"
| "cache_loop S T0 (Suc n) t = cache_loop S T0 n (fst (bucket S T0 t))"

definition new_index_table :: "nat \<Rightarrow> 'a \<Rightarrow> int \<Rightarrow> 'a index_table" where
  "new_index_table S T0 cache =
     cache_loop S T0 (nat cache) \<lparr>buckets = [], empty_stack = [], bucket_hiindex = 0\<rparr>"

text \<open>
  \<open>count()\<close>.  The accumulator of \<open>std::accumulate\<close> has the type of its initial
  value \<open>0\<close>, an \<open>int\<close> of 32 bits.  At each bucket it is converted to the \<open>size_t\<close>
  parameter \<open>val\<close> of the lambda, the \<open>size_t\<close> sum \<open>val + bckt->filled\<close> is
  converted back to \<open>int\<close>, and the final \<open>int\<close> is converted to the return type
  \<open>size_t\<close>.
\<close>

definition count :: "'a index_table \<Rightarrow> nat" where
  "count t =
     size_t (foldl (\<lambda>val bckt. int32_t (int ((size_t val + filled bckt) mod 2 ^ 64))) 0
               (buckets t))"

definition sizeb :: "nat \<Rightarrow> nat" where
  "sizeb S = S"

definition table_insert :: "nat \<Rightarrow> 'a \<Rightarrow> 'a index_table \<Rightarrow> 'a \<Rightarrow> 'a index_table \<times> int" where
  "table_insert S T0 t v =
     (let (t1, pos) = (case first S t of None \<Rightarrow> bucket S T0 t | Some p \<Rightarrow> (t, p));
          (bckt, index) = bucket_insert S T0 (buckets t1 ! pos) v
      in (t1\<lparr>buckets := (buckets t1)[pos := bckt]\<rparr>, table_index S index (bucket_index bckt)))"

text \<open>
  \<open>removet\<close>.  The pointer found by \<open>find_if\<close> is never null, so the test
  \<open>bckt != nullptr\<close> always succeeds and the final \<open>return -1\<close> is never reached.
\<close>

definition removet :: "nat \<Rightarrow> 'a \<Rightarrow> 'a index_table \<Rightarrow> 'a \<Rightarrow> fault + 'a index_table \<times> int" where
  "removet S T0 t v =
     (let iter = find_if (\<lambda>bckt. item S bckt v \<noteq> - 1) (buckets t)
      in if iter = length (buckets t) then Inr (t, - 1)
         else (case bucket_remove S T0 (buckets t ! iter) v of
                 Inl f \<Rightarrow> Inl f
               | Inr (bckt, r) \<Rightarrow>
                   (let index = table_index S r (bucket_index bckt)
                    in if filled bckt \<le> 0
                       then Inr (t\<lparr>buckets := erase iter (buckets t),
                                   empty_stack := bucket_index bckt # empty_stack t\<rparr>, index)
                       else Inr (t\<lparr>buckets := (buckets t)[iter := bckt]\<rparr>, index))))"

text \<open>
  \<open>removei\<close> and \<open>geti\<close> divide the \<open>int32_t\<close> identifier by the \<open>size_t\<close> bucket
  size, so the identifier is converted to \<open>size_t\<close> first, and so is the bucket index
  it is compared with.
\<close>

definition removei :: "nat \<Rightarrow> 'a \<Rightarrow> 'a index_table \<Rightarrow> int \<Rightarrow> fault + 'a index_table \<times> 'a" where
  "removei S T0 t index =
     (let iter = find_if (\<lambda>bck. size_t (bucket_index bck) = size_t index div S) (buckets t)
      in if iter = length (buckets t) then Inr (t, T0)
         else (let itm = items (buckets t ! iter) ! (size_t index mod S)
               in case bucket_remove S T0 (buckets t ! iter) itm of
                    Inl f \<Rightarrow> Inl f
                  | Inr (bckt, r) \<Rightarrow>
                      if filled bckt \<le> 0
                      then Inr (t\<lparr>buckets := erase iter (buckets t),
                                  empty_stack := bucket_index bckt # empty_stack t\<rparr>, itm)
                      else Inr (t\<lparr>buckets := (buckets t)[iter := bckt]\<rparr>, itm)))"

definition gett :: "nat \<Rightarrow> 'a index_table \<Rightarrow> 'a \<Rightarrow> int" where
  "gett S t v =
     (let iter = find_if (\<lambda>bckt. item S bckt v \<noteq> - 1) (buckets t)
      in if iter = length (buckets t) then - 1
         else table_index S (item S (buckets t ! iter) v) (bucket_index (buckets t ! iter)))"

definition geti :: "nat \<Rightarrow> 'a \<Rightarrow> 'a index_table \<Rightarrow> int \<Rightarrow> 'a" where
  "geti S T0 t index =
     (let iter = find_if (\<lambda>bck. size_t (bucket_index bck) = size_t index div S) (buckets t)
      in if iter = length (buckets t) then T0
         else items (buckets t ! iter) ! (size_t index mod S))"

section \<open>The table of index_table.hpp\<close>

text \<open>
  \<open>index_table.hpp\<close> has no \<open>bucket_hiindex\<close>.  Its \<open>bucket()\<close> takes the new index
  from a \<open>find_if\<close> whose predicate compares each bucket index with \<open>bindex\<close>
  (initially \<open>-1\<close>) and returns true the first time it updates \<open>bindex\<close>; the search
  therefore stops at the first bucket whose index exceeds \<open>-1\<close>, and the new index is
  that position plus one, stored in an \<open>int32_t\<close>.
\<close>

record 'a index_table_hpp =
  buckets_hpp :: "'a index_bucket list"
  empty_hpp :: "int list"

definition bucket_hpp :: "nat \<Rightarrow> 'a \<Rightarrow> 'a index_table_hpp \<Rightarrow> 'a index_table_hpp \<times> nat" where
  "bucket_hpp S T0 t =
     (let (bindex, t1) =
        (case empty_hpp t of
           bi # rest \<Rightarrow> (bi, t\<lparr>empty_hpp := rest\<rparr>)
         | [] \<Rightarrow>
             if length (buckets_hpp t) > 0
             then (int32_t (int (find_if (\<lambda>b. bucket_index b > - 1) (buckets_hpp t)) + 1), t)
             else (0, t))
      in (t1\<lparr>buckets_hpp := buckets_hpp t1 @ [new_index_bucket S T0 bindex]\<rparr>,
          length (buckets_hpp t1)))"

definition first_hpp :: "nat \<Rightarrow> 'a index_table_hpp \<Rightarrow> nat option" where
  "first_hpp S t =
     (let iter = find_if (\<lambda>bckt. filled bckt < S) (buckets_hpp t)
      in if iter = length (buckets_hpp t) then None else Some iter)"

primrec cache_loop_hpp :: "nat \<Rightarrow> 'a \<Rightarrow> nat \<Rightarrow> 'a index_table_hpp \<Rightarrow> 'a index_table_hpp" where
  "cache_loop_hpp S T0 0 t = t"
| "cache_loop_hpp S T0 (Suc n) t = cache_loop_hpp S T0 n (fst (bucket_hpp S T0 t))"

definition new_index_table_hpp :: "nat \<Rightarrow> 'a \<Rightarrow> int \<Rightarrow> 'a index_table_hpp" where
  "new_index_table_hpp S T0 cache =
     cache_loop_hpp S T0 (nat cache) \<lparr>buckets_hpp = [], empty_hpp = []\<rparr>"

definition table_insert_hpp :: "nat \<Rightarrow> 'a \<Rightarrow> 'a index_table_hpp \<Rightarrow> 'a \<Rightarrow> 'a index_table_hpp \<times> int" where
  "table_insert_hpp S T0 t v =
     (let (t1, pos) = (case first_hpp S t of None \<Rightarrow> bucket_hpp S T0 t | Some p \<Rightarrow> (t, p));
          (bckt, index) = bucket_insert_hpp S T0 (buckets_hpp t1 ! pos) v
      in (t1\<lparr>buckets_hpp := (buckets_hpp t1)[pos := bckt]\<rparr>, index))"

text \<open>\<open>removet\<close> of \<open>index_table.hpp\<close> erases a drained bucket and pushes nothing.\<close>

definition removet_hpp :: "nat \<Rightarrow> 'a \<Rightarrow> 'a index_table_hpp \<Rightarrow> 'a \<Rightarrow> fault + 'a index_table_hpp \<times> int" where
  "removet_hpp S T0 t v =
     (let iter = find_if (\<lambda>bckt. item S bckt v \<noteq> - 1) (buckets_hpp t)
      in if iter = length (buckets_hpp t) then Inr (t, - 1)
         else (case bucket_remove_hpp S T0 (buckets_hpp t ! iter) v of
                 Inl f \<Rightarrow> Inl f
               | Inr (bckt, index) \<Rightarrow>
                   if filled bckt \<le> 0
                   then Inr (t\<lparr>buckets_hpp := erase iter (buckets_hpp t)\<rparr>, index)
                   else Inr (t\<lparr>buckets_hpp := (buckets_hpp t)[iter := bckt]\<rparr>, index)))"

text \<open>
  \<open>removei\<close> of \<open>index_table.hpp\<close> looks for the first bucket whose slot
  \<open>index % S\<close> is not \<open>T()\<close>, and returns the item only when the bucket was erased.
  Its test \<open>bckt != T()\<close> compares the bucket pointer with a value-initialised \<open>T\<close>;
  where that compiles \<open>T()\<close> is a null pointer, and the pointer found is not null.
\<close>

definition removei_hpp :: "nat \<Rightarrow> 'a \<Rightarrow> 'a index_table_hpp \<Rightarrow> int \<Rightarrow> fault + 'a index_table_hpp \<times> 'a" where
  "removei_hpp S T0 t index =
     (let iter = find_if (\<lambda>bck. items bck ! (size_t index mod S) \<noteq> T0) (buckets_hpp t)
      in if iter = length (buckets_hpp t) then Inr (t, T0)
         else (let itm = items (buckets_hpp t ! iter) ! (size_t index mod S)
               in case bucket_remove_hpp S T0 (buckets_hpp t ! iter) itm of
                    Inl f \<Rightarrow> Inl f
                  | Inr (bckt, r) \<Rightarrow>
                      if filled bckt \<le> 0
                      then Inr (t\<lparr>buckets_hpp := erase iter (buckets_hpp t)\<rparr>, itm)
                      else Inr (t\<lparr>buckets_hpp := (buckets_hpp t)[iter := bckt]\<rparr>, T0)))"

text \<open>\<open>gett\<close> of \<open>index_table.hpp\<close> returns what \<open>index_bucket::item\<close> returns.\<close>

definition gett_hpp :: "nat \<Rightarrow> 'a index_table_hpp \<Rightarrow> 'a \<Rightarrow> int" where
  "gett_hpp S t v =
     (let iter = find_if (\<lambda>bckt. item S bckt v \<noteq> - 1) (buckets_hpp t)
      in if iter = length (buckets_hpp t) then - 1
         else item S (buckets_hpp t ! iter) v)"

definition geti_hpp :: "nat \<Rightarrow> 'a \<Rightarrow> 'a index_table_hpp \<Rightarrow> int \<Rightarrow> 'a" where
  "geti_hpp S T0 t index =
     (let iter = find_if (\<lambda>bck. size_t (bucket_index bck) = size_t index div S) (buckets_hpp t)
      in if iter = length (buckets_hpp t) then T0
         else items (buckets_hpp t ! iter) ! (size_t index mod S))"

text \<open>\<open>count()\<close> is the same in both headers.\<close>

definition count_hpp :: "'a index_table_hpp \<Rightarrow> nat" where
  "count_hpp t =
     size_t (foldl (\<lambda>val bckt. int32_t (int ((size_t val + filled bckt) mod 2 ^ 64))) 0
               (buckets_hpp t))"

section \<open>Invariants and call sequences\<close>

text \<open>The number of slots of an array that hold something else than \<open>T()\<close>.\<close>

definition slots_used :: "'a \<Rightarrow> 'a list \<Rightarrow> nat" where
  "slots_used T0 xs = length (filter (\<lambda>x. x \<noteq> T0) xs)"

text \<open>The sum of the fill counters of the table, as a natural number.\<close>

definition fill_sum :: "'a index_table \<Rightarrow> nat" where
  "fill_sum t = sum_list (map filled (buckets t))"

text \<open>
  The bucket invariant: the array has \<open>S\<close> slots and \<open>filled\<close> counts the slots in
  use (so \<open>filled \<le> S\<close>).
\<close>

definition bucket_inv :: "nat \<Rightarrow> 'a \<Rightarrow> 'a index_bucket \<Rightarrow> bool" where
  "bucket_inv S T0 b \<longleftrightarrow> length (items b) = S \<and> filled b = slots_used T0 (items b)"

text \<open>
  The shape of a table that has only seen insertions: every bucket satisfies the bucket
  invariant, every bucket but the last is full, and the last bucket is not empty.
\<close>

definition packed :: "nat \<Rightarrow> 'a \<Rightarrow> 'a index_table \<Rightarrow> bool" where
  "packed S T0 t \<longleftrightarrow>
     (\<forall>b\<in>set (buckets t). bucket_inv S T0 b) \<and>
     (\<forall>b\<in>set (butlast (buckets t)). filled b = S) \<and>
     (buckets t \<noteq> [] \<longrightarrow> 0 < filled (last (buckets t)))"

text \<open>Every bucket of the table has \<open>S\<close> slots.\<close>

definition slots_ok :: "nat \<Rightarrow> 'a index_table \<Rightarrow> bool" where
  "slots_ok S t \<longleftrightarrow> (\<forall>b\<in>set (buckets t). length (items b) = S)"

text \<open>Every bucket of the table satisfies the bucket invariant.\<close>

definition exact :: "nat \<Rightarrow> 'a \<Rightarrow> 'a index_table \<Rightarrow> bool" where
  "exact S T0 t \<longleftrightarrow> (\<forall>b\<in>set (buckets t). bucket_inv S T0 b)"

text \<open>
  The bucket indices of the table: the indices of the buckets in the vector and the
  indices on the stack are pairwise different and lie between 0 and \<open>bucket_hiindex\<close>.
\<close>

definition ids_inv :: "'a index_table \<Rightarrow> bool" where
  "ids_inv t \<longleftrightarrow>
     0 \<le> bucket_hiindex t \<and>
     distinct (map bucket_index (buckets t) @ empty_stack t) \<and>
     (\<forall>i\<in>set (map bucket_index (buckets t) @ empty_stack t). 0 \<le> i \<and> i \<le> bucket_hiindex t)"

text \<open>
  The tables that the public members of the revised header can produce: the constructor,
  then any sequence of \<open>insert\<close> and \<open>removet\<close> of values other than \<open>T()\<close> and of
  \<open>removei\<close> of any identifier (\<open>gett\<close>, \<open>geti\<close> and \<open>count\<close> do not change the
  table).
\<close>

inductive reachable :: "nat \<Rightarrow> 'a \<Rightarrow> 'a index_table \<Rightarrow> bool" for S :: nat and T0 :: 'a where
  constructed: "reachable S T0 (new_index_table S T0 cache)"
| inserted: "reachable S T0 t \<Longrightarrow> v \<noteq> T0 \<Longrightarrow> reachable S T0 (fst (table_insert S T0 t v))"
| removed_value:
    "reachable S T0 t \<Longrightarrow> v \<noteq> T0 \<Longrightarrow> removet S T0 t v = Inr (t', r) \<Longrightarrow> reachable S T0 t'"
| removed_index: "reachable S T0 t \<Longrightarrow> removei S T0 t i = Inr (t', x) \<Longrightarrow> reachable S T0 t'"

text \<open>
  The same, with \<open>removei\<close> restricted to identifiers whose slot is in use.
\<close>

inductive used_properly :: "nat \<Rightarrow> 'a \<Rightarrow> 'a index_table \<Rightarrow> bool" for S :: nat and T0 :: 'a where
  constructed: "used_properly S T0 (new_index_table S T0 cache)"
| inserted: "used_properly S T0 t \<Longrightarrow> v \<noteq> T0 \<Longrightarrow> used_properly S T0 (fst (table_insert S T0 t v))"
| removed_value:
    "used_properly S T0 t \<Longrightarrow> v \<noteq> T0 \<Longrightarrow> removet S T0 t v = Inr (t', r) \<Longrightarrow> used_properly S T0 t'"
| removed_index:
    "used_properly S T0 t \<Longrightarrow> geti S T0 t i \<noteq> T0 \<Longrightarrow> removei S T0 t i = Inr (t', x) \<Longrightarrow>
     used_properly S T0 t'"

text \<open>A sequence of calls \<open>insert(v)\<close>, one for each element of the list, in order.\<close>

primrec insert_all :: "nat \<Rightarrow> 'a \<Rightarrow> 'a index_table \<Rightarrow> 'a list \<Rightarrow> 'a index_table" where
  "insert_all S T0 t [] = t"
| "insert_all S T0 t (v # vs) = insert_all S T0 (fst (table_insert S T0 t v)) vs"

primrec insert_all_hpp :: "nat \<Rightarrow> 'a \<Rightarrow> 'a index_table_hpp \<Rightarrow> 'a list \<Rightarrow> 'a index_table_hpp" where
  "insert_all_hpp S T0 t [] = t"
| "insert_all_hpp S T0 t (v # vs) = insert_all_hpp S T0 (fst (table_insert_hpp S T0 t v)) vs"

text \<open>
  A table of \<open>index_table.hpp\<close> and a table of the revised header hold the same
  slots and fill counters, bucket by bucket (the bucket indices may differ).
\<close>

definition same_slots :: "'a index_table_hpp \<Rightarrow> 'a index_table \<Rightarrow> bool" where
  "same_slots th t \<longleftrightarrow>
     map (\<lambda>b. (items b, filled b)) (buckets_hpp th) = map (\<lambda>b. (items b, filled b)) (buckets t)"

section \<open>Searching\<close>

lemma find_if_le: "find_if p xs \<le> length xs"
  by (induction xs) auto

lemma find_if_lt_iff: "find_if p xs < length xs \<longleftrightarrow> (\<exists>x\<in>set xs. p x)"
  by (induction xs) auto

lemma find_if_eq_length_iff: "find_if p xs = length xs \<longleftrightarrow> (\<forall>x\<in>set xs. \<not> p x)"
  using find_if_lt_iff [of p xs] find_if_le [of p xs] by auto

lemma find_if_nth: "find_if p xs < length xs \<Longrightarrow> p (xs ! find_if p xs)"
  by (induction xs) auto

lemma find_if_before: "i < find_if p xs \<Longrightarrow> \<not> p (xs ! i)"
proof (induction xs arbitrary: i)
  case Nil
  then show ?case by simp
next
  case (Cons x xs)
  then show ?case by (cases i) (auto split: if_splits)
qed

lemma find_if_eqI:
  "k < length xs \<Longrightarrow> p (xs ! k) \<Longrightarrow> (\<And>j. j < k \<Longrightarrow> \<not> p (xs ! j)) \<Longrightarrow> find_if p xs = k"
proof (induction xs arbitrary: k)
  case Nil
  then show ?case by simp
next
  case (Cons x xs)
  show ?case
  proof (cases k)
    case 0
    with Cons.prems show ?thesis by simp
  next
    case (Suc k')
    have "\<not> p x" using Cons.prems(3) [of 0] Suc by simp
    moreover have "find_if p xs = k'"
    proof (rule Cons.IH)
      show "k' < length xs" using Cons.prems(1) Suc by simp
      show "p (xs ! k')" using Cons.prems(2) Suc by simp
      show "\<not> p (xs ! j)" if "j < k'" for j
        using Cons.prems(3) [of "Suc j"] that Suc by simp
    qed
    ultimately show ?thesis using Suc by simp
  qed
qed

section \<open>Conversions\<close>

lemma size_t_id: "n < 2 ^ 64 \<Longrightarrow> size_t (int n) = n"
  by (simp add: size_t_def nat_mod_distrib flip: of_nat_power)

lemma size_t_nat: "0 \<le> i \<Longrightarrow> i < 2 ^ 64 \<Longrightarrow> size_t i = nat i"
  by (simp add: size_t_def)

lemma int32_t_id: "- (2 ^ 31) \<le> i \<Longrightarrow> i < 2 ^ 31 \<Longrightarrow> int32_t i = i"
  by (simp add: int32_t_def)

lemma int32_t_nat: "n < 2 ^ 31 \<Longrightarrow> int32_t (int n) = int n"
  by (simp add: int32_t_def)

lemma int32_t_cong: "x mod 2 ^ 32 = y mod 2 ^ 32 \<Longrightarrow> int32_t x = int32_t y"
  unfolding int32_t_def by (metis mod_add_left_eq)

lemma int32_t_mod: "int32_t i mod 2 ^ 32 = i mod 2 ^ 32"
proof -
  have "int32_t i mod 2 ^ 32 = ((i + 2 ^ 31) mod 2 ^ 32 - 2 ^ 31 mod 2 ^ 32) mod 2 ^ 32"
    unfolding int32_t_def by (simp only: mod_diff_right_eq)
  also have "\<dots> = (i + 2 ^ 31 - 2 ^ 31) mod 2 ^ 32" by (simp only: mod_diff_eq)
  finally show ?thesis by simp
qed

lemma mod64_mod32: "(x mod 2 ^ 64) mod 2 ^ 32 = (x :: int) mod 2 ^ 32"
proof -
  have "(2 :: int) ^ 32 dvd 2 ^ 64" by (simp add: le_imp_power_dvd)
  then show ?thesis by (simp add: mod_mod_cancel)
qed

lemma size_t_mod: "int (size_t i) mod 2 ^ 32 = i mod 2 ^ 32"
  using mod64_mod32 [of i] by (simp add: size_t_def)

text \<open>
  The identifier is the sum \<open>index + bucket_index * S\<close> of the integers, converted to
  \<open>int32_t\<close>: the intermediate \<open>size_t\<close> arithmetic does not change the result.
\<close>

lemma table_index_int32: "table_index S index bindex = int32_t (index + bindex * int S)"
proof -
  have "int ((size_t index + size_t bindex * S) mod 2 ^ 64) mod 2 ^ 32 =
        (int (size_t index) + int (size_t bindex) * int S) mod 2 ^ 32"
    using mod64_mod32 [of "int (size_t index) + int (size_t bindex) * int S"]
    by (simp add: zmod_int)
  also have "\<dots> = (index + bindex * int S) mod 2 ^ 32"
    by (intro mod_add_cong mod_mult_cong size_t_mod refl)
  finally show ?thesis unfolding table_index_def by (rule int32_t_cong)
qed

lemma table_index_small:
  "0 \<le> index + bindex * int S \<Longrightarrow> index + bindex * int S < 2 ^ 31 \<Longrightarrow>
     table_index S index bindex = index + bindex * int S"
  by (simp add: table_index_int32 int32_t_id)

lemma accumulate_step:
  "int32_t (int ((size_t (int32_t (int s)) + f) mod 2 ^ 64)) = int32_t (int (s + f))"
proof (rule int32_t_cong)
  have "int ((size_t (int32_t (int s)) + f) mod 2 ^ 64) mod 2 ^ 32 =
        (int (size_t (int32_t (int s))) + int f) mod 2 ^ 32"
    using mod64_mod32 [of "int (size_t (int32_t (int s))) + int f"] by (simp add: zmod_int)
  also have "\<dots> = (int s + int f) mod 2 ^ 32"
  proof (intro mod_add_cong refl)
    show "int (size_t (int32_t (int s))) mod 2 ^ 32 = int s mod 2 ^ 32"
      by (simp only: size_t_mod int32_t_mod)
  qed
  finally show "int ((size_t (int32_t (int s)) + f) mod 2 ^ 64) mod 2 ^ 32 = int (s + f) mod 2 ^ 32"
    by simp
qed

lemma accumulate_filled:
  "foldl (\<lambda>val f. int32_t (int ((size_t val + f) mod 2 ^ 64))) (int32_t (int a)) fs =
     int32_t (int (a + sum_list fs))"
proof (induction fs arbitrary: a)
  case Nil
  then show ?case by simp
next
  case (Cons f fs)
  let ?g = "\<lambda>val f. int32_t (int ((size_t val + f) mod 2 ^ 64))"
  have "foldl ?g (int32_t (int a)) (f # fs) = foldl ?g (int32_t (int (a + f))) fs"
    by (simp only: foldl_Cons accumulate_step)
  also have "\<dots> = int32_t (int (a + f + sum_list fs))" by (rule Cons.IH)
  finally show ?case by (simp add: add.assoc)
qed

lemma foldl_filled:
  "foldl (\<lambda>val bckt. g val (filled bckt)) a bs = foldl g a (map filled bs)"
  by (induction bs arbitrary: a) auto

text \<open>
  \<open>count()\<close> returns the sum of the fill counters after the conversion to \<open>int\<close> and
  back: the sum itself when it is below \<open>2^31\<close>.
\<close>

lemma count_fill_sum: "count t = size_t (int32_t (int (fill_sum t)))"
proof -
  have "foldl (\<lambda>val bckt. int32_t (int ((size_t val + filled bckt) mod 2 ^ 64))) 0 (buckets t) =
        foldl (\<lambda>val f. int32_t (int ((size_t val + f) mod 2 ^ 64))) (int32_t (int 0)) (map filled (buckets t))"
    using foldl_filled [of "\<lambda>val f. int32_t (int ((size_t val + f) mod 2 ^ 64))" 0 "buckets t"]
    by (simp add: int32_t_def)
  then show ?thesis using accumulate_filled [of 0 "map filled (buckets t)"]
    by (simp add: count_def fill_sum_def)
qed

lemma count_small: "fill_sum t < 2 ^ 31 \<Longrightarrow> count t = fill_sum t"
  by (simp add: count_fill_sum int32_t_nat size_t_id)

text \<open>
  For a bucket size below \<open>2^31\<close> the conversions in the members of \<open>index_bucket\<close>
  return the distance they are given.
\<close>

lemma distance_small:
  assumes "length xs = S" and "S < 2 ^ 31"
  shows "int32_t (int (find_if p xs)) = int (find_if p xs)"
    and "size_t (int (find_if p xs)) = find_if p xs"
proof -
  have "find_if p xs \<le> S" using find_if_le [of p xs] assms(1) by simp
  then have k: "find_if p xs < 2 ^ 31" using assms(2) by simp
  then show "int32_t (int (find_if p xs)) = int (find_if p xs)" by (rule int32_t_nat)
  show "size_t (int (find_if p xs)) = find_if p xs" using k by (intro size_t_id) simp
qed

lemma get_index_small:
  assumes "length (items b) = S" and "S < 2 ^ 31"
  shows "get_index S T0 b =
           (if find_if (\<lambda>itm. itm = T0) (items b) \<noteq> S
            then int (find_if (\<lambda>itm. itm = T0) (items b)) else - 1)"
  using distance_small [OF assms, of "\<lambda>itm. itm = T0"] by (simp add: get_index_def)

lemma item_small:
  assumes "length (items b) = S" and "S < 2 ^ 31"
  shows "item S b v =
           (if find_if (\<lambda>itm. itm = v) (items b) \<noteq> S
            then int (find_if (\<lambda>itm. itm = v) (items b)) else - 1)"
  using distance_small [OF assms, of "\<lambda>itm. itm = v"] by (simp add: item_def)

section \<open>Insertion into a bucket\<close>

lemma slots_used_le: "slots_used T0 xs \<le> length xs"
  by (simp add: slots_used_def)

lemma slots_used_free: "slots_used T0 xs < length xs \<Longrightarrow> T0 \<in> set xs"
proof (rule ccontr)
  assume a: "slots_used T0 xs < length xs" and "T0 \<notin> set xs"
  then have "filter (\<lambda>x. x \<noteq> T0) xs = xs" by (auto intro: filter_True)
  with a show False by (simp add: slots_used_def)
qed

lemma slots_used_update_free:
  "k < length xs \<Longrightarrow> xs ! k = T0 \<Longrightarrow> v \<noteq> T0 \<Longrightarrow> slots_used T0 (xs[k := v]) = Suc (slots_used T0 xs)"
proof (induction xs arbitrary: k)
  case Nil
  then show ?case by simp
next
  case (Cons x xs)
  then show ?case by (cases k) (auto simp: slots_used_def)
qed

lemma slots_used_update_used:
  "k < length xs \<Longrightarrow> xs ! k \<noteq> T0 \<Longrightarrow> Suc (slots_used T0 (xs[k := T0])) = slots_used T0 xs"
proof (induction xs arbitrary: k)
  case Nil
  then show ?case by simp
next
  case (Cons x xs)
  then show ?case by (cases k) (auto simp: slots_used_def)
qed

lemma get_index_free:
  assumes "length (items b) = S" and "S < 2 ^ 31" and "T0 \<in> set (items b)"
  shows "get_index S T0 b = int (find_if (\<lambda>itm. itm = T0) (items b))"
    and "find_if (\<lambda>itm. itm = T0) (items b) < S"
    and "items b ! find_if (\<lambda>itm. itm = T0) (items b) = T0"
proof -
  let ?k = "find_if (\<lambda>itm. itm = T0) (items b)"
  show lt: "?k < S" using assms find_if_lt_iff [of "\<lambda>itm. itm = T0" "items b"] by auto
  then show "get_index S T0 b = int ?k" using get_index_small [OF assms(1,2), of T0] by simp
  show "items b ! ?k = T0"
    using lt assms(1) find_if_nth [of "\<lambda>itm. itm = T0" "items b"] by simp
qed

lemma bucket_insert_room:
  assumes inv: "bucket_inv S T0 b" and room: "filled b < S" and S: "S < 2 ^ 31" and v: "v \<noteq> T0"
  defines "k \<equiv> find_if (\<lambda>itm. itm = T0) (items b)"
  shows "bucket_insert S T0 b v = (b\<lparr>items := (items b)[k := v], filled := Suc (filled b)\<rparr>, int k)"
    and "k < S" and "items b ! k = T0"
    and "bucket_inv S T0 (fst (bucket_insert S T0 b v))"
proof -
  have len: "length (items b) = S" and f: "filled b = slots_used T0 (items b)"
    using inv by (auto simp: bucket_inv_def)
  have free: "T0 \<in> set (items b)" using room f len slots_used_free [of T0 "items b"] by simp
  note gi = get_index_free [OF len S free]
  show k: "k < S" and at: "items b ! k = T0" using gi by (auto simp: k_def)
  have "size_t (int (filled b) + 1) = Suc (filled b)"
    using size_t_id [of "Suc (filled b)"] room S by (simp add: add.commute)
  moreover have "size_t (int k) = k" using k S by (intro size_t_id) simp
  ultimately show eq: "bucket_insert S T0 b v = (b\<lparr>items := (items b)[k := v], filled := Suc (filled b)\<rparr>, int k)"
    using gi k by (simp add: bucket_insert_def k_def Let_def)
  show "bucket_inv S T0 (fst (bucket_insert S T0 b v))"
    using eq len f k at v slots_used_update_free [of k "items b" T0 v]
    by (simp add: bucket_inv_def)
qed

section \<open>Insertion into a table that was never removed from\<close>

lemma slots_used_replicate: "slots_used T0 (replicate n T0) = 0"
  by (simp add: slots_used_def)

lemma bucket_inv_new: "bucket_inv S T0 (new_index_bucket S T0 bi)"
  by (simp add: bucket_inv_def new_index_bucket_def slots_used_replicate)

lemma bucket_inv_filled_le: "bucket_inv S T0 b \<Longrightarrow> filled b \<le> S"
  using slots_used_le [of T0 "items b"] by (auto simp: bucket_inv_def)

lemma bucket_buckets:
  "\<exists>bi. buckets (fst (bucket S T0 t)) = buckets t @ [new_index_bucket S T0 bi]"
  by (auto simp: bucket_def Let_def split: list.splits)

lemma bucket_pos: "snd (bucket S T0 t) = length (buckets t)"
  by (auto simp: bucket_def Let_def split: list.splits)

lemma table_insert_None:
  assumes "first S t = None"
  shows "buckets (fst (table_insert S T0 t v)) =
         (buckets (fst (bucket S T0 t)))
           [length (buckets t) := fst (bucket_insert S T0 (buckets (fst (bucket S T0 t)) ! length (buckets t)) v)]"
  using assms bucket_pos [of S T0 t]
  by (simp add: table_insert_def Let_def split_beta)

lemma table_insert_Some:
  assumes "first S t = Some p"
  shows "buckets (fst (table_insert S T0 t v)) =
         (buckets t)[p := fst (bucket_insert S T0 (buckets t ! p) v)]"
  using assms by (simp add: table_insert_def Let_def split_beta)

lemma first_None: "first S t = None \<longleftrightarrow> (\<forall>b\<in>set (buckets t). \<not> filled b < S)"
  using find_if_eq_length_iff [of "\<lambda>bckt. filled bckt < S" "buckets t"]
  by (simp add: first_def Let_def)

lemma first_Some:
  "first S t = Some p \<longleftrightarrow>
     p = find_if (\<lambda>bckt. filled bckt < S) (buckets t) \<and> p < length (buckets t)"
  using find_if_le [of "\<lambda>bckt. filled bckt < S" "buckets t"]
  by (auto simp: first_def Let_def)

lemma update_last: "xs \<noteq> [] \<Longrightarrow> xs[length xs - 1 := y] = butlast xs @ [y]"
  by (cases xs rule: rev_cases) auto

lemma table_insert_packed:
  assumes pk: "packed S T0 t" and S0: "0 < S" and S: "S < 2 ^ 31" and v: "v \<noteq> T0"
  shows "packed S T0 (fst (table_insert S T0 t v)) \<and>
         fill_sum (fst (table_insert S T0 t v)) = Suc (fill_sum t)"
proof (cases "first S t")
  case None
  obtain bi where bk: "buckets (fst (bucket S T0 t)) = buckets t @ [new_index_bucket S T0 bi]"
    using bucket_buckets [of S T0 t] by blast
  let ?nb = "new_index_bucket S T0 bi"
  let ?b' = "fst (bucket_insert S T0 ?nb v)"
  have room: "filled ?nb < S" using S0 by (simp add: new_index_bucket_def)
  note ins = bucket_insert_room [OF bucket_inv_new [of S T0 bi] room S v]
  have f': "filled ?b' = 1" using ins(1) by (simp add: new_index_bucket_def)
  have bs: "buckets (fst (table_insert S T0 t v)) = buckets t @ [?b']"
    using table_insert_None [OF None, of T0 v] bk by simp
  have full: "\<forall>b\<in>set (buckets t). filled b = S"
  proof
    fix b assume b: "b \<in> set (buckets t)"
    then have "\<not> filled b < S" using None first_None by blast
    moreover have "filled b \<le> S" using pk b bucket_inv_filled_le [of S T0 b] by (auto simp: packed_def)
    ultimately show "filled b = S" by simp
  qed
  have "packed S T0 (fst (table_insert S T0 t v))"
    using pk full ins(4) f' by (auto simp: packed_def bs)
  moreover have "fill_sum (fst (table_insert S T0 t v)) = Suc (fill_sum t)"
    using f' by (simp add: fill_sum_def bs)
  ultimately show ?thesis by simp
next
  case (Some p)
  let ?bs = "buckets t"
  have p: "p = find_if (\<lambda>bckt. filled bckt < S) ?bs" and plt: "p < length ?bs"
    using Some first_Some by blast+
  have room: "filled (?bs ! p) < S"
    using find_if_nth [of "\<lambda>bckt. filled bckt < S" ?bs] p plt by simp
  have ne: "?bs \<noteq> []" using plt by auto
  have plast: "p = length ?bs - 1"
  proof (rule ccontr)
    assume "p \<noteq> length ?bs - 1"
    then have "p < length (butlast ?bs)" using plt by simp
    then have "butlast ?bs ! p \<in> set (butlast ?bs)" by (rule nth_mem)
    moreover have "butlast ?bs ! p = ?bs ! p"
      using \<open>p < length (butlast ?bs)\<close> by (simp add: nth_butlast)
    ultimately have "filled (?bs ! p) = S" using pk by (simp add: packed_def)
    with room show False by simp
  qed
  have lastp: "?bs ! p = last ?bs" using plast ne by (simp add: last_conv_nth)
  have inv: "bucket_inv S T0 (?bs ! p)" using pk plt by (simp add: packed_def)
  let ?b' = "fst (bucket_insert S T0 (?bs ! p) v)"
  note ins = bucket_insert_room [OF inv room S v]
  have f': "filled ?b' = Suc (filled (?bs ! p))" using ins(1) by simp
  have upd: "?bs[p := ?b'] = butlast ?bs @ [?b']"
    using update_last [OF ne, of ?b'] plast by simp
  have bs: "buckets (fst (table_insert S T0 t v)) = butlast ?bs @ [?b']"
    using table_insert_Some [OF Some, of T0 v] upd by simp
  have old: "fill_sum t = sum_list (map filled (butlast ?bs)) + filled (?bs ! p)"
  proof -
    have "sum_list (map filled ?bs) = sum_list (map filled (butlast ?bs @ [last ?bs]))"
      using ne by simp
    then show ?thesis by (simp add: fill_sum_def lastp del: append_butlast_last_id)
  qed
  have "\<forall>b\<in>set (butlast ?bs). bucket_inv S T0 b"
    using pk in_set_butlastD by (fastforce simp: packed_def)
  then have "packed S T0 (fst (table_insert S T0 t v))"
    using pk ins(4) f' by (auto simp: packed_def bs)
  moreover have "fill_sum (fst (table_insert S T0 t v)) = Suc (fill_sum t)"
    using f' old by (simp add: fill_sum_def bs)
  ultimately show ?thesis by simp
qed

lemma packed_new: "packed S T0 (new_index_table S T0 0)"
  by (simp add: packed_def new_index_table_def)

lemma fill_sum_new: "fill_sum (new_index_table S T0 0) = 0"
  by (simp add: fill_sum_def new_index_table_def)

lemma insert_all_packed:
  assumes "packed S T0 t" and "0 < S" and "S < 2 ^ 31" and "\<forall>v\<in>set vs. v \<noteq> T0"
  shows "packed S T0 (insert_all S T0 t vs) \<and>
         fill_sum (insert_all S T0 t vs) = fill_sum t + length vs"
  using assms
proof (induction vs arbitrary: t)
  case Nil
  then show ?case by simp
next
  case (Cons v vs)
  have step: "packed S T0 (fst (table_insert S T0 t v)) \<and>
      fill_sum (fst (table_insert S T0 t v)) = Suc (fill_sum t)"
    using table_insert_packed [of S T0 t v] Cons.prems by simp
  then show ?case using Cons.IH [of "fst (table_insert S T0 t v)"] Cons.prems by simp
qed

lemma sum_list_filled_full:
  "\<forall>b\<in>set bs. filled b = S \<Longrightarrow> sum_list (map filled bs) = length bs * S"
  by (induction bs) auto

lemma packed_pages:
  assumes pk: "packed S T0 t" and S0: "0 < S"
  shows "length (buckets t) = (fill_sum t + S - 1) div S"
proof (cases "buckets t = []")
  case True
  then show ?thesis using S0 by (simp add: fill_sum_def)
next
  case False
  let ?bs = "buckets t"
  let ?f = "filled (last ?bs)"
  have "sum_list (map filled ?bs) = sum_list (map filled (butlast ?bs @ [last ?bs]))"
    using False by simp
  then have "fill_sum t = sum_list (map filled (butlast ?bs)) + ?f"
    by (simp add: fill_sum_def del: append_butlast_last_id)
  moreover have "sum_list (map filled (butlast ?bs)) = length (butlast ?bs) * S"
    using pk by (intro sum_list_filled_full) (simp add: packed_def)
  ultimately have c: "fill_sum t = (length ?bs - 1) * S + ?f" by simp
  have f0: "0 < ?f" using pk False by (simp add: packed_def)
  have "bucket_inv S T0 (last ?bs)" using pk False by (simp add: packed_def)
  then have fS: "?f \<le> S" by (rule bucket_inv_filled_le)
  obtain d where d: "?f + S - 1 = S + d" and dS: "d < S"
    using f0 fS by (intro that [of "?f - 1"]) auto
  have "fill_sum t + S - 1 = (length ?bs - 1) * S + (S + d)" using c d f0 by simp
  then have "(fill_sum t + S - 1) div S = (length ?bs - 1) + (S + d) div S"
    using S0 by (simp add: div_mult_self3 add.commute)
  also have "(S + d) div S = 1" using dS S0 div_add_self1 [of S d] by simp
  finally show ?thesis using False by (simp add: Suc_leI)
qed

text \<open>
  A table is constructed with \<open>cache = 0\<close> and the values of a list, none of them
  \<open>T()\<close>, are inserted; nothing is removed.  For a bucket size \<open>0 < S < 2^31\<close> and
  \<open>n\<close> values the vector then holds \<open>ceil(n / S)\<close> buckets whose fill counters add up
  to \<open>n\<close>, and \<open>count()\<close> returns \<open>n\<close> after the conversion to \<open>int\<close> and back.
\<close>

lemma insert_all_count:
  assumes "0 < S" and "S < 2 ^ 31" and "\<forall>v\<in>set vs. v \<noteq> T0"
  shows "count (insert_all S T0 (new_index_table S T0 0) vs) = size_t (int32_t (int (length vs)))"
    and "length (buckets (insert_all S T0 (new_index_table S T0 0) vs)) = (length vs + S - 1) div S"
proof -
  let ?t = "insert_all S T0 (new_index_table S T0 0) vs"
  have pk: "packed S T0 ?t \<and> fill_sum ?t = length vs"
    using insert_all_packed [OF packed_new assms] by (simp add: fill_sum_new)
  then show "count ?t = size_t (int32_t (int (length vs)))" by (simp add: count_fill_sum)
  show "length (buckets ?t) = (length vs + S - 1) div S"
    using pk packed_pages [of S T0 ?t] assms(1) by simp
qed

text \<open>
  Below \<open>2^31\<close> values, \<open>count()\<close> returns their number.
\<close>

theorem compactness:
  assumes "0 < S" and "S < 2 ^ 31" and "\<forall>v\<in>set vs. v \<noteq> T0" and "length vs < 2 ^ 31"
  shows "count (insert_all S T0 (new_index_table S T0 0) vs) = length vs \<and>
         length (buckets (insert_all S T0 (new_index_table S T0 0) vs)) = (length vs + S - 1) div S"
  using insert_all_count [OF assms(1,2,3)] assms(4) by (simp add: int32_t_nat size_t_id)

theorem compactness_witness:
  "count (insert_all 2 0 (new_index_table 2 0 0) [5, 6, 7 :: nat]) = 3 \<and>
   length (buckets (insert_all 2 0 (new_index_table 2 0 0) [5, 6, 7 :: nat])) = 2"
  using compactness [of 2 "[5, 6, 7 :: nat]" 0] by simp

text \<open>
  C8.  \<open>count()\<close> does not return the number of values from \<open>2^31\<close> values on.
  A table with \<open>S = 65536\<close> is constructed with \<open>cache = 0\<close> and \<open>2^31\<close> values 7
  are inserted (\<open>T() = 0\<close>); every identifier, at most \<open>2^31 - 1\<close>, fits \<open>int32_t\<close>.
  The vector holds \<open>2^31 / 65536 = 32768\<close> full buckets, and \<open>count()\<close> returns
  \<open>2^64 - 2^31\<close>: its \<open>int\<close> accumulator holds \<open>-2^31\<close> after the last bucket.
\<close>

theorem count_wraps:
  "count (insert_all 65536 (0 :: nat) (new_index_table 65536 0 0) (replicate 2147483648 7)) =
     18446744071562067968
   \<and> length (buckets (insert_all 65536 (0 :: nat) (new_index_table 65536 0 0)
                        (replicate 2147483648 7))) = 32768"
  using insert_all_count [of 65536 "replicate 2147483648 7" "0 :: nat"]
  by (simp add: int32_t_def size_t_def)

section \<open>The same insertions in index_table.hpp\<close>

lemma same_slots_length: "same_slots th t \<Longrightarrow> length (buckets_hpp th) = length (buckets t)"
  unfolding same_slots_def by (rule map_eq_imp_length_eq)

lemma same_slots_nth:
  assumes "same_slots th t" and "p < length (buckets t)"
  shows "items (buckets_hpp th ! p) = items (buckets t ! p)"
    and "filled (buckets_hpp th ! p) = filled (buckets t ! p)"
proof -
  have "map (\<lambda>b. (items b, filled b)) (buckets_hpp th) ! p = map (\<lambda>b. (items b, filled b)) (buckets t) ! p"
    using assms(1) by (simp add: same_slots_def)
  then have "(items (buckets_hpp th ! p), filled (buckets_hpp th ! p)) =
             (items (buckets t ! p), filled (buckets t ! p))"
    using assms same_slots_length [of th t] by simp
  then show "items (buckets_hpp th ! p) = items (buckets t ! p)"
    and "filled (buckets_hpp th ! p) = filled (buckets t ! p)" by simp_all
qed

lemma find_if_map: "find_if p (map f xs) = find_if (\<lambda>x. p (f x)) xs"
  by (induction xs) auto

lemma same_slots_first: "same_slots th t \<Longrightarrow> first_hpp S th = first S t"
proof -
  assume s: "same_slots th t"
  have "find_if (\<lambda>bckt. filled bckt < S) (buckets_hpp th) =
        find_if (\<lambda>x. snd x < S) (map (\<lambda>b. (items b, filled b)) (buckets_hpp th))"
    by (simp add: find_if_map)
  also have "\<dots> = find_if (\<lambda>x. snd x < S) (map (\<lambda>b. (items b, filled b)) (buckets t))"
    using s by (simp add: same_slots_def)
  also have "\<dots> = find_if (\<lambda>bckt. filled bckt < S) (buckets t)"
    by (simp add: find_if_map)
  finally show ?thesis using same_slots_length [OF s] by (simp add: first_hpp_def first_def)
qed

lemma bucket_insert_hpp_slots:
  assumes "items b1 = items b2" and "filled b1 = filled b2"
  shows "items (fst (bucket_insert_hpp S T0 b1 v)) = items (fst (bucket_insert S T0 b2 v))"
    and "filled (fst (bucket_insert_hpp S T0 b1 v)) = filled (fst (bucket_insert S T0 b2 v))"
  using assms by (simp_all add: bucket_insert_hpp_def bucket_insert_def get_index_def Let_def)

lemma bucket_hpp_buckets:
  "\<exists>bi. buckets_hpp (fst (bucket_hpp S T0 t)) = buckets_hpp t @ [new_index_bucket S T0 bi]"
  by (auto simp: bucket_hpp_def Let_def split: list.splits)

lemma bucket_hpp_pos: "snd (bucket_hpp S T0 t) = length (buckets_hpp t)"
  by (auto simp: bucket_hpp_def Let_def split: list.splits)

lemma same_slots_bucket: "same_slots th t \<Longrightarrow> same_slots (fst (bucket_hpp S T0 th)) (fst (bucket S T0 t))"
  using bucket_hpp_buckets [of S T0 th] bucket_buckets [of S T0 t]
  by (auto simp: same_slots_def new_index_bucket_def)

lemma same_slots_update:
  assumes "same_slots th t" and "items b1 = items b2" and "filled b1 = filled b2"
  shows "same_slots (th\<lparr>buckets_hpp := (buckets_hpp th)[p := b1]\<rparr>) (t\<lparr>buckets := (buckets t)[p := b2]\<rparr>)"
  using assms by (simp add: same_slots_def map_update)

lemma same_slots_table_insert:
  assumes s: "same_slots th t"
  shows "same_slots (fst (table_insert_hpp S T0 th v)) (fst (table_insert S T0 t v))"
proof (cases "first S t")
  case None
  then have nh: "first_hpp S th = None" using same_slots_first [OF s, of S] by simp
  let ?th1 = "fst (bucket_hpp S T0 th)" and ?t1 = "fst (bucket S T0 t)"
  let ?p = "length (buckets t)"
  have s1: "same_slots ?th1 ?t1" using s by (rule same_slots_bucket)
  have p1: "?p < length (buckets ?t1)" using bucket_buckets [of S T0 t] by auto
  note nth = same_slots_nth [OF s1 p1]
  have "fst (table_insert_hpp S T0 th v) =
        ?th1\<lparr>buckets_hpp := (buckets_hpp ?th1)[?p := fst (bucket_insert_hpp S T0 (buckets_hpp ?th1 ! ?p) v)]\<rparr>"
    using nh bucket_hpp_pos [of S T0 th] same_slots_length [OF s]
    by (simp add: table_insert_hpp_def Let_def split_beta)
  moreover have "fst (table_insert S T0 t v) =
        ?t1\<lparr>buckets := (buckets ?t1)[?p := fst (bucket_insert S T0 (buckets ?t1 ! ?p) v)]\<rparr>"
    using None bucket_pos [of S T0 t] by (simp add: table_insert_def Let_def split_beta)
  ultimately show ?thesis
    using same_slots_update [OF s1 bucket_insert_hpp_slots [OF nth]] by simp
next
  case (Some p)
  then have sh: "first_hpp S th = Some p" using same_slots_first [OF s, of S] by simp
  have plt: "p < length (buckets t)" using Some first_Some by blast
  note nth = same_slots_nth [OF s plt]
  have "fst (table_insert_hpp S T0 th v) =
        th\<lparr>buckets_hpp := (buckets_hpp th)[p := fst (bucket_insert_hpp S T0 (buckets_hpp th ! p) v)]\<rparr>"
    using sh by (simp add: table_insert_hpp_def Let_def split_beta)
  moreover have "fst (table_insert S T0 t v) =
        t\<lparr>buckets := (buckets t)[p := fst (bucket_insert S T0 (buckets t ! p) v)]\<rparr>"
    using Some by (simp add: table_insert_def Let_def split_beta)
  ultimately show ?thesis
    using same_slots_update [OF s bucket_insert_hpp_slots [OF nth]] by simp
qed

lemma same_slots_insert_all:
  "same_slots th t \<Longrightarrow> same_slots (insert_all_hpp S T0 th vs) (insert_all S T0 t vs)"
proof (induction vs arbitrary: th t)
  case Nil
  then show ?case by simp
next
  case (Cons v vs)
  then show ?case using same_slots_table_insert [of th t S T0 v] by simp
qed

lemma same_slots_count: "same_slots th t \<Longrightarrow> count_hpp th = count t"
proof -
  assume s: "same_slots th t"
  let ?g = "\<lambda>val f. int32_t (int ((size_t val + f) mod 2 ^ 64))"
  have "map filled (buckets_hpp th) = map snd (map (\<lambda>b. (items b, filled b)) (buckets_hpp th))"
    by (simp add: comp_def)
  also have "\<dots> = map snd (map (\<lambda>b. (items b, filled b)) (buckets t))"
    using s by (simp add: same_slots_def)
  also have "\<dots> = map filled (buckets t)" by (simp add: comp_def)
  finally have "foldl ?g 0 (map filled (buckets_hpp th)) = foldl ?g 0 (map filled (buckets t))"
    by simp
  then show ?thesis
    using foldl_filled [of ?g 0 "buckets_hpp th"] foldl_filled [of ?g 0 "buckets t"]
    by (simp add: count_hpp_def count_def)
qed

text \<open>
  The same holds in \<open>index_table.hpp\<close>, whose \<open>insert\<close> differs only in the index
  it gives to a new bucket and in the member that computes the identifier.
\<close>

theorem compactness_hpp:
  assumes "0 < S" and "S < 2 ^ 31" and "\<forall>v\<in>set vs. v \<noteq> T0" and "length vs < 2 ^ 31"
  shows "count_hpp (insert_all_hpp S T0 (new_index_table_hpp S T0 0) vs) = length vs \<and>
         length (buckets_hpp (insert_all_hpp S T0 (new_index_table_hpp S T0 0) vs)) =
           (length vs + S - 1) div S"
proof -
  let ?th = "insert_all_hpp S T0 (new_index_table_hpp S T0 0) vs"
  let ?t = "insert_all S T0 (new_index_table S T0 0) vs"
  have "same_slots (new_index_table_hpp S T0 0) (new_index_table S T0 0)"
    by (simp add: same_slots_def new_index_table_hpp_def new_index_table_def)
  then have s: "same_slots ?th ?t" by (rule same_slots_insert_all)
  have "count ?t = length vs" and "length (buckets ?t) = (length vs + S - 1) div S"
    using insert_all_count [OF assms(1,2,3)] assms(4) by (simp_all add: int32_t_nat size_t_id)
  then show ?thesis using same_slots_count [OF s] same_slots_length [OF s] by simp
qed

section \<open>Looking up a value\<close>

lemma item_absent:
  "length (items b) = S \<Longrightarrow> S < 2 ^ 31 \<Longrightarrow> v \<notin> set (items b) \<Longrightarrow> item S b v = - 1"
  using find_if_eq_length_iff [of "\<lambda>itm. itm = v" "items b"] item_small [of b S v] by simp

lemma item_present:
  "length (items b) = S \<Longrightarrow> S < 2 ^ 31 \<Longrightarrow> v \<in> set (items b) \<Longrightarrow>
     item S b v = int (find_if (\<lambda>itm. itm = v) (items b)) \<and> find_if (\<lambda>itm. itm = v) (items b) < S"
  using find_if_lt_iff [of "\<lambda>itm. itm = v" "items b"] item_small [of b S v] by auto

lemma item_found_iff:
  "length (items b) = S \<Longrightarrow> S < 2 ^ 31 \<Longrightarrow> item S b v \<noteq> - 1 \<longleftrightarrow> v \<in> set (items b)"
  using item_absent [of b S v] item_present [of b S v] by auto

lemma absent_search:
  assumes "slots_ok S t" and "S < 2 ^ 31" and "\<forall>b\<in>set (buckets t). v \<notin> set (items b)"
  shows "find_if (\<lambda>bckt. item S bckt v \<noteq> - 1) (buckets t) = length (buckets t)"
proof -
  have "\<not> item S b v \<noteq> - 1" if "b \<in> set (buckets t)" for b
    using assms that item_absent [of b S v] by (simp add: slots_ok_def)
  then show ?thesis
    using find_if_eq_length_iff [of "\<lambda>bckt. item S bckt v \<noteq> - 1" "buckets t"] by blast
qed

lemma gett_absent:
  assumes "slots_ok S t" and "S < 2 ^ 31" and "\<forall>b\<in>set (buckets t). v \<notin> set (items b)"
  shows "gett S t v = - 1"
  using absent_search [OF assms] by (simp add: gett_def)

lemma find_if_replicate: "find_if p (replicate n x) = (if p x then 0 else n)"
  by (induction n) auto

lemma find_if_update_0: "xs \<noteq> [] \<Longrightarrow> p v \<Longrightarrow> find_if p (xs[0 := v]) = 0"
  by (cases xs) auto

lemma cache_loop_2: "cache_loop S T0 2 t = fst (bucket S T0 (fst (bucket S T0 t)))"
  by (simp add: numeral_2_eq_2)

text \<open>
  C9.  On a table with no buckets \<open>gett\<close> returns \<open>-1\<close> for every value and \<open>geti\<close>
  returns \<open>T()\<close> for every identifier.  On a table with a bucket size below \<open>2^31\<close>,
  a value that no slot of the table holds is reported as \<open>-1\<close> by \<open>gett\<close> and by
  \<open>removet\<close>, which leaves the table as it is.  A free slot holds \<open>T()\<close>, so this
  covers every value other than \<open>T()\<close> that is not stored, and \<open>T()\<close> itself only
  on a table without a free slot.
\<close>

theorem not_found:
  "gett S \<lparr>buckets = [], empty_stack = es, bucket_hiindex = hi\<rparr> v = - 1 \<and>
   geti S T0 \<lparr>buckets = [], empty_stack = es, bucket_hiindex = hi\<rparr> i = T0 \<and>
   (S < 2 ^ 31 \<and> (\<forall>b\<in>set (buckets t). length (items b) = S \<and> v \<notin> set (items b)) \<longrightarrow>
      gett S t v = - 1 \<and> removet S T0 t v = Inr (t, - 1))"
proof -
  have "gett S t v = - 1 \<and> removet S T0 t v = Inr (t, - 1)"
    if S: "S < 2 ^ 31"
      and a: "\<forall>b\<in>set (buckets t). length (items b) = S \<and> v \<notin> set (items b)"
  proof -
    have "find_if (\<lambda>bckt. item S bckt v \<noteq> - 1) (buckets t) = length (buckets t)"
      using a S by (intro absent_search) (simp_all add: slots_ok_def)
    then show ?thesis by (simp add: gett_def removet_def)
  qed
  then show ?thesis by (simp add: gett_def geti_def)
qed

theorem not_found_witness:
  "gett 2 \<lparr>buckets = [], empty_stack = [], bucket_hiindex = 0\<rparr> (5 :: nat) = - 1 \<and>
   geti 2 (0 :: nat) \<lparr>buckets = [], empty_stack = [], bucket_hiindex = 0\<rparr> 7 = 0 \<and>
   gett 2 \<lparr>buckets = [\<lparr>items = [7, 0 :: nat], filled = 1, bucket_index = 0\<rparr>],
            empty_stack = [], bucket_hiindex = 0\<rparr> 5 = - 1 \<and>
   removet 2 0 \<lparr>buckets = [\<lparr>items = [7, 0 :: nat], filled = 1, bucket_index = 0\<rparr>],
            empty_stack = [], bucket_hiindex = 0\<rparr> 5 =
     Inr (\<lparr>buckets = [\<lparr>items = [7, 0 :: nat], filled = 1, bucket_index = 0\<rparr>],
            empty_stack = [], bucket_hiindex = 0\<rparr>, - 1)"
  using not_found [of 2 "[]" 0 5 "0 :: nat" 7
      "\<lparr>buckets = [\<lparr>items = [7, 0 :: nat], filled = 1, bucket_index = 0\<rparr>],
        empty_stack = [], bucket_hiindex = 0\<rparr>"]
  by simp

text \<open>
  A value that was never stored can be reported with the identifier 0.  With \<open>T() = 0\<close>
  and \<open>S = 2\<close>, on the table that \<open>index_table(1)\<close> constructs, \<open>gett(T())\<close> finds
  the first free slot and returns its identifier (the first equation).  With
  \<open>S = 2^31\<close> the distance \<open>S\<close> of an unsuccessful search is \<open>-2^31\<close> as an
  \<open>int32_t\<close>, which is not \<open>-1\<close>: after \<open>index_table(2)\<close>, \<open>insert(7)\<close> and
  \<open>removet(7)\<close> the vector holds the unused bucket with index 1, and \<open>gett(9)\<close>
  returns \<open>-2^31 + 1 * 2^31 = 0\<close> (the other equations).
\<close>

theorem absent_value_found:
  "gett 2 (new_index_table 2 (0 :: nat) 1) 0 = 0
   \<and> new_index_table 2147483648 (0 :: nat) 2 =
     \<lparr>buckets = [\<lparr>items = replicate 2147483648 0, filled = 0, bucket_index = 0\<rparr>,
                 \<lparr>items = replicate 2147483648 0, filled = 0, bucket_index = 1\<rparr>],
      empty_stack = [], bucket_hiindex = 1\<rparr>
   \<and> table_insert 2147483648 (0 :: nat)
       \<lparr>buckets = [\<lparr>items = replicate 2147483648 0, filled = 0, bucket_index = 0\<rparr>,
                   \<lparr>items = replicate 2147483648 0, filled = 0, bucket_index = 1\<rparr>],
        empty_stack = [], bucket_hiindex = 1\<rparr> 7 =
     (\<lparr>buckets = [\<lparr>items = (replicate 2147483648 0)[0 := 7], filled = 1, bucket_index = 0\<rparr>,
                  \<lparr>items = replicate 2147483648 0, filled = 0, bucket_index = 1\<rparr>],
       empty_stack = [], bucket_hiindex = 1\<rparr>, 0)
   \<and> removet 2147483648 (0 :: nat)
       \<lparr>buckets = [\<lparr>items = (replicate 2147483648 0)[0 := 7], filled = 1, bucket_index = 0\<rparr>,
                   \<lparr>items = replicate 2147483648 0, filled = 0, bucket_index = 1\<rparr>],
        empty_stack = [], bucket_hiindex = 1\<rparr> 7 =
     Inr (\<lparr>buckets = [\<lparr>items = replicate 2147483648 0, filled = 0, bucket_index = 1\<rparr>],
           empty_stack = [0], bucket_hiindex = 1\<rparr>, 0)
   \<and> gett 2147483648
       \<lparr>buckets = [\<lparr>items = replicate 2147483648 (0 :: nat), filled = 0, bucket_index = 1\<rparr>],
        empty_stack = [0], bucket_hiindex = 1\<rparr> 9 = 0"
  by (simp add: new_index_table_def bucket_def new_index_bucket_def first_def
      get_index_def item_def bucket_insert_def bucket_remove_def store_def erase_def
      table_insert_def removet_def gett_def table_index_def int32_t_def size_t_def Let_def
      find_if_replicate find_if_update_0 cache_loop_2)

text \<open>The same holds for the members of \<open>index_table.hpp\<close>.\<close>

lemma not_found_hpp:
  "gett_hpp S \<lparr>buckets_hpp = [], empty_hpp = es\<rparr> v = - 1 \<and>
   geti_hpp S T0 \<lparr>buckets_hpp = [], empty_hpp = es\<rparr> i = T0 \<and>
   (S < 2 ^ 31 \<and> (\<forall>b\<in>set (buckets_hpp t). length (items b) = S \<and> v \<notin> set (items b)) \<longrightarrow>
      gett_hpp S t v = - 1 \<and> removet_hpp S T0 t v = Inr (t, - 1))"
proof -
  have "gett_hpp S t v = - 1 \<and> removet_hpp S T0 t v = Inr (t, - 1)"
    if S: "S < 2 ^ 31"
      and a: "\<forall>b\<in>set (buckets_hpp t). length (items b) = S \<and> v \<notin> set (items b)"
  proof -
    have "\<not> item S b v \<noteq> - 1" if "b \<in> set (buckets_hpp t)" for b
      using a S that item_absent [of b S v] by simp
    then have "find_if (\<lambda>bckt. item S bckt v \<noteq> - 1) (buckets_hpp t) = length (buckets_hpp t)"
      using find_if_eq_length_iff [of "\<lambda>bckt. item S bckt v \<noteq> - 1" "buckets_hpp t"] by blast
    then show ?thesis by (simp add: gett_hpp_def removet_hpp_def)
  qed
  then show ?thesis by (simp add: gett_hpp_def geti_hpp_def)
qed

text \<open>
  \<open>gett\<close> of the revised header returns the global identifier: when \<open>v\<close> is in no
  bucket before position \<open>p\<close> of the vector and its first slot in that bucket is
  \<open>off\<close>, the result is \<open>bucket_index * S + off\<close>, provided this number fits
  \<open>int32_t\<close>.
\<close>

theorem gett_global_identifier:
  assumes len: "\<forall>b\<in>set (buckets t). length (items b) = S" and S: "S < 2 ^ 31"
    and p: "p < length (buckets t)"
    and range: "0 \<le> bucket_index (buckets t ! p)"
      "bucket_index (buckets t ! p) * int S + int off < 2 ^ 31"
    and before: "\<forall>j<p. v \<notin> set (items (buckets t ! j))"
    and off: "off < S" and at: "items (buckets t ! p) ! off = v"
    and first_match: "\<forall>k<off. items (buckets t ! p) ! k \<noteq> v"
  shows "gett S t v = bucket_index (buckets t ! p) * int S + int off"
proof -
  let ?bs = "buckets t"
  have lenp: "length (items (?bs ! p)) = S" using len p by simp
  have inp: "v \<in> set (items (?bs ! p))"
    using off at lenp nth_mem [of off "items (?bs ! p)"] by simp
  have "find_if (\<lambda>bckt. item S bckt v \<noteq> - 1) ?bs = p"
  proof (rule find_if_eqI [OF p])
    show "item S (?bs ! p) v \<noteq> - 1" using item_found_iff [OF lenp S] inp by simp
    show "\<not> item S (?bs ! j) v \<noteq> - 1" if "j < p" for j
    proof -
      have "length (items (?bs ! j)) = S" using len p that by simp
      moreover have "v \<notin> set (items (?bs ! j))" using before that by simp
      ultimately show ?thesis using item_absent [of "?bs ! j" S v] S by simp
    qed
  qed
  moreover have "find_if (\<lambda>itm. itm = v) (items (?bs ! p)) = off"
    using off at first_match lenp by (intro find_if_eqI) auto
  then have "item S (?bs ! p) v = int off" using off item_small [OF lenp S, of v] by simp
  moreover have "table_index S (int off) (bucket_index (?bs ! p)) =
      bucket_index (?bs ! p) * int S + int off"
    using range table_index_small [of "int off" "bucket_index (?bs ! p)" S]
    by (simp add: add.commute)
  ultimately show ?thesis using p by (simp add: gett_def)
qed

theorem gett_global_identifier_witness:
  "gett 2 \<lparr>buckets = [\<lparr>items = [7, 8], filled = 2, bucket_index = 0\<rparr>,
                       \<lparr>items = [0, 9 :: nat], filled = 1, bucket_index = 3\<rparr>],
            empty_stack = [], bucket_hiindex = 3\<rparr> 9 = 7"
  using gett_global_identifier [where S = 2 and p = 1 and v = 9 and off = 1 and t =
      "\<lparr>buckets = [\<lparr>items = [7, 8], filled = 2, bucket_index = 0\<rparr>,
                       \<lparr>items = [0, 9 :: nat], filled = 1, bucket_index = 3\<rparr>],
            empty_stack = [], bucket_hiindex = 3\<rparr>"]
  by (simp add: less_Suc_eq)

section \<open>Construction\<close>

lemma cache_loop_buckets:
  assumes "buckets t = map (\<lambda>i. new_index_bucket S T0 (int i)) [0..<k]"
    and "empty_stack t = []" and "bucket_hiindex t = int (k - 1)"
  shows "buckets (cache_loop S T0 n t) = map (\<lambda>i. new_index_bucket S T0 (int i)) [0..<k + n] \<and>
         empty_stack (cache_loop S T0 n t) = [] \<and>
         bucket_hiindex (cache_loop S T0 n t) = int (k + n - 1)"
  using assms
proof (induction n arbitrary: t k)
  case 0
  then show ?case by simp
next
  case (Suc n)
  let ?t1 = "fst (bucket S T0 t)"
  have b: "buckets ?t1 = map (\<lambda>i. new_index_bucket S T0 (int i)) [0..<Suc k]"
    using Suc.prems by (cases k) (simp_all add: bucket_def Let_def add.commute)
  have e: "empty_stack ?t1 = []" using Suc.prems by (simp add: bucket_def Let_def)
  have h: "bucket_hiindex ?t1 = int (Suc k - 1)"
    using Suc.prems by (cases k) (simp_all add: bucket_def Let_def)
  show ?case using Suc.IH [OF b e h] by simp
qed

text \<open>
  The constructor of the revised header pre-creates \<open>cache\<close> unused buckets with the
  indices \<open>0, 1, \<dots>, cache - 1\<close>, in this order, and leaves the stack empty.
\<close>

theorem new_index_table_buckets:
  "buckets (new_index_table S T0 cache) = map (\<lambda>i. new_index_bucket S T0 (int i)) [0..<nat cache] \<and>
   empty_stack (new_index_table S T0 cache) = [] \<and>
   map bucket_index (buckets (new_index_table S T0 cache)) = map int [0..<nat cache]"
proof -
  let ?t0 = "\<lparr>buckets = [], empty_stack = [], bucket_hiindex = 0\<rparr> :: 'a index_table"
  have "buckets ?t0 = map (\<lambda>i. new_index_bucket S T0 (int i)) [0..<0]"
    and "empty_stack ?t0 = []" and "bucket_hiindex ?t0 = int (0 - 1)" by simp_all
  from cache_loop_buckets [OF this, of "nat cache"]
  show ?thesis by (simp add: new_index_table_def new_index_bucket_def comp_def)
qed

section \<open>The shape of reachable tables\<close>

lemma bucket_insert_index [simp]: "bucket_index (fst (bucket_insert S T0 b v)) = bucket_index b"
  by (simp add: bucket_insert_def Let_def)

lemma bucket_insert_length [simp]: "length (items (fst (bucket_insert S T0 b v))) = length (items b)"
  by (simp add: bucket_insert_def Let_def)

lemma bucket_remove_index: "bucket_remove S T0 b v = Inr (b', r) \<Longrightarrow> bucket_index b' = bucket_index b"
  by (auto simp: bucket_remove_def store_def Let_def split: if_splits)

lemma bucket_remove_length: "bucket_remove S T0 b v = Inr (b', r) \<Longrightarrow> length (items b') = length (items b)"
  by (auto simp: bucket_remove_def store_def Let_def split: if_splits)

lemma map_update_same: "f y = f (xs ! i) \<Longrightarrow> map f (xs[i := y]) = map f xs"
  by (metis list_update_id map_update)

lemma set_erase_subset: "set (erase i xs) \<subseteq> set xs"
  by (auto simp: erase_def dest: in_set_takeD in_set_dropD)

lemma erase_split: "i < length xs \<Longrightarrow> xs = take i xs @ xs ! i # drop (Suc i) xs"
  by (simp add: id_take_nth_drop)

lemma ids_inv_bucket: "ids_inv t \<Longrightarrow> ids_inv (fst (bucket S T0 t))"
  by (cases "empty_stack t")
     (auto simp: ids_inv_def bucket_def Let_def new_index_bucket_def)

lemma slots_ok_bucket: "slots_ok S t \<Longrightarrow> slots_ok S (fst (bucket S T0 t))"
  by (cases "empty_stack t")
     (auto simp: slots_ok_def bucket_def Let_def new_index_bucket_def)

lemma table_insert_chosen:
  assumes "0 < S"
  shows "\<exists>t1 pos. (t1 = t \<or> t1 = fst (bucket S T0 t)) \<and> pos < length (buckets t1) \<and>
           filled (buckets t1 ! pos) < S \<and>
           table_insert S T0 t v =
             (t1\<lparr>buckets := (buckets t1)[pos := fst (bucket_insert S T0 (buckets t1 ! pos) v)]\<rparr>,
              table_index S (snd (bucket_insert S T0 (buckets t1 ! pos) v)) (bucket_index (buckets t1 ! pos)))"
proof (cases "first S t")
  case None
  obtain bi where bk: "buckets (fst (bucket S T0 t)) = buckets t @ [new_index_bucket S T0 bi]"
    using bucket_buckets [of S T0 t] by blast
  let ?t1 = "fst (bucket S T0 t)" and ?pos = "length (buckets t)"
  have "?pos < length (buckets ?t1)" using bk by simp
  moreover have "filled (buckets ?t1 ! ?pos) < S" using bk assms by (simp add: new_index_bucket_def)
  moreover have "table_insert S T0 t v =
             (?t1\<lparr>buckets := (buckets ?t1)[?pos := fst (bucket_insert S T0 (buckets ?t1 ! ?pos) v)]\<rparr>,
              table_index S (snd (bucket_insert S T0 (buckets ?t1 ! ?pos) v)) (bucket_index (buckets ?t1 ! ?pos)))"
    using None bucket_pos [of S T0 t] by (simp add: table_insert_def Let_def split_beta)
  ultimately show ?thesis by blast
next
  case (Some p)
  have p: "p = find_if (\<lambda>bckt. filled bckt < S) (buckets t)" and plt: "p < length (buckets t)"
    using Some first_Some by blast+
  have "filled (buckets t ! p) < S"
    using find_if_nth [of "\<lambda>bckt. filled bckt < S" "buckets t"] p plt by simp
  moreover have "table_insert S T0 t v =
             (t\<lparr>buckets := (buckets t)[p := fst (bucket_insert S T0 (buckets t ! p) v)]\<rparr>,
              table_index S (snd (bucket_insert S T0 (buckets t ! p) v)) (bucket_index (buckets t ! p)))"
    using Some by (simp add: table_insert_def Let_def split_beta)
  ultimately show ?thesis using plt by blast
qed

lemma ids_inv_update:
  "ids_inv t \<Longrightarrow> bucket_index b' = bucket_index (buckets t ! p) \<Longrightarrow>
     ids_inv (t\<lparr>buckets := (buckets t)[p := b']\<rparr>)"
  by (simp add: ids_inv_def map_update_same)

lemma slots_ok_update:
  "slots_ok S t \<Longrightarrow> length (items b') = S \<Longrightarrow> slots_ok S (t\<lparr>buckets := (buckets t)[p := b']\<rparr>)"
  by (auto simp: slots_ok_def dest!: subsetD [OF set_update_subset_insert])

lemma ids_inv_erase:
  assumes "ids_inv t" and "p < length (buckets t)"
  shows "ids_inv (t\<lparr>buckets := erase p (buckets t),
                    empty_stack := bucket_index (buckets t ! p) # empty_stack t\<rparr>)"
proof -
  let ?bs = "buckets t"
  have split: "?bs = take p ?bs @ ?bs ! p # drop (Suc p) ?bs" using assms(2) by (rule erase_split)
  have "map bucket_index ?bs @ empty_stack t =
        map bucket_index (take p ?bs) @ bucket_index (?bs ! p) # map bucket_index (drop (Suc p) ?bs) @ empty_stack t"
    by (subst split) simp
  then have d: "distinct (map bucket_index (take p ?bs) @ bucket_index (?bs ! p) # map bucket_index (drop (Suc p) ?bs) @ empty_stack t)"
    and s: "set (map bucket_index ?bs @ empty_stack t) =
        set (map bucket_index (take p ?bs) @ bucket_index (?bs ! p) # map bucket_index (drop (Suc p) ?bs) @ empty_stack t)"
    using assms(1) by (simp_all add: ids_inv_def)
  have "distinct (map bucket_index (erase p ?bs) @ bucket_index (?bs ! p) # empty_stack t)"
    using d by (auto simp: erase_def)
  moreover have "set (map bucket_index (erase p ?bs) @ bucket_index (?bs ! p) # empty_stack t) =
      set (map bucket_index ?bs @ empty_stack t)"
    unfolding s by (auto simp: erase_def)
  ultimately show ?thesis using assms(1) by (simp add: ids_inv_def)
qed

lemma slots_ok_erase: "slots_ok S t \<Longrightarrow> slots_ok S (t\<lparr>buckets := erase p (buckets t), empty_stack := es\<rparr>)"
  using set_erase_subset [of p "buckets t"] by (auto simp: slots_ok_def)

lemma ids_inv_table_insert:
  assumes "ids_inv t" and "0 < S"
  shows "ids_inv (fst (table_insert S T0 t v))"
proof -
  obtain t1 pos where t1: "t1 = t \<or> t1 = fst (bucket S T0 t)"
    and eq: "table_insert S T0 t v =
             (t1\<lparr>buckets := (buckets t1)[pos := fst (bucket_insert S T0 (buckets t1 ! pos) v)]\<rparr>,
              table_index S (snd (bucket_insert S T0 (buckets t1 ! pos) v)) (bucket_index (buckets t1 ! pos)))"
    using table_insert_chosen [OF assms(2), of t T0 v] by blast
  have "ids_inv t1" using t1 assms(1) ids_inv_bucket [of t S T0] by auto
  then show ?thesis unfolding eq by (simp add: ids_inv_update)
qed

lemma slots_ok_table_insert:
  assumes "slots_ok S t" and "0 < S"
  shows "slots_ok S (fst (table_insert S T0 t v))"
proof -
  obtain t1 pos where t1: "t1 = t \<or> t1 = fst (bucket S T0 t)" and pos: "pos < length (buckets t1)"
    and eq: "table_insert S T0 t v =
             (t1\<lparr>buckets := (buckets t1)[pos := fst (bucket_insert S T0 (buckets t1 ! pos) v)]\<rparr>,
              table_index S (snd (bucket_insert S T0 (buckets t1 ! pos) v)) (bucket_index (buckets t1 ! pos)))"
    using table_insert_chosen [OF assms(2), of t T0 v] by blast
  have ok: "slots_ok S t1" using t1 assms(1) slots_ok_bucket [of S t T0] by auto
  then have "length (items (buckets t1 ! pos)) = S" using pos by (simp add: slots_ok_def)
  then show ?thesis unfolding eq using ok by (simp add: slots_ok_update)
qed

lemma removet_cases:
  assumes "removet S T0 t v = Inr (t', r)"
  shows "t' = t \<or>
         (\<exists>p b'. p < length (buckets t) \<and> bucket_index b' = bucket_index (buckets t ! p) \<and>
            length (items b') = length (items (buckets t ! p)) \<and>
            (t' = t\<lparr>buckets := (buckets t)[p := b']\<rparr> \<or>
             t' = t\<lparr>buckets := erase p (buckets t),
                    empty_stack := bucket_index (buckets t ! p) # empty_stack t\<rparr>))"
proof -
  let ?p = "find_if (\<lambda>bckt. item S bckt v \<noteq> - 1) (buckets t)"
  show ?thesis
  proof (cases "?p = length (buckets t)")
    case True
    then show ?thesis using assms by (simp add: removet_def)
  next
    case False
    then have p: "?p < length (buckets t)" using find_if_le [of _ "buckets t"] by (simp add: le_neq_implies_less)
    from assms False obtain b' r0 where br: "bucket_remove S T0 (buckets t ! ?p) v = Inr (b', r0)"
      by (auto simp: removet_def Let_def split: sum.splits)
    have "t' = t\<lparr>buckets := (buckets t)[?p := b']\<rparr> \<or>
             t' = t\<lparr>buckets := erase ?p (buckets t),
                    empty_stack := bucket_index b' # empty_stack t\<rparr>"
      using assms False br by (auto simp: removet_def Let_def split: if_splits)
    then show ?thesis using p bucket_remove_index [OF br] bucket_remove_length [OF br] by auto
  qed
qed

lemma removei_cases:
  assumes "removei S T0 t i = Inr (t', x)"
  shows "t' = t \<or>
         (\<exists>p b'. p < length (buckets t) \<and> bucket_index b' = bucket_index (buckets t ! p) \<and>
            length (items b') = length (items (buckets t ! p)) \<and>
            (t' = t\<lparr>buckets := (buckets t)[p := b']\<rparr> \<or>
             t' = t\<lparr>buckets := erase p (buckets t),
                    empty_stack := bucket_index (buckets t ! p) # empty_stack t\<rparr>))"
proof -
  let ?p = "find_if (\<lambda>bck. size_t (bucket_index bck) = size_t i div S) (buckets t)"
  let ?itm = "items (buckets t ! ?p) ! (size_t i mod S)"
  show ?thesis
  proof (cases "?p = length (buckets t)")
    case True
    then show ?thesis using assms by (simp add: removei_def)
  next
    case False
    then have p: "?p < length (buckets t)" using find_if_le [of _ "buckets t"] by (simp add: le_neq_implies_less)
    from assms False obtain b' r0 where br: "bucket_remove S T0 (buckets t ! ?p) ?itm = Inr (b', r0)"
      by (auto simp: removei_def Let_def split: sum.splits)
    have "t' = t\<lparr>buckets := (buckets t)[?p := b']\<rparr> \<or>
             t' = t\<lparr>buckets := erase ?p (buckets t),
                    empty_stack := bucket_index b' # empty_stack t\<rparr>"
      using assms False br by (auto simp: removei_def Let_def split: if_splits)
    then show ?thesis using p bucket_remove_index [OF br] bucket_remove_length [OF br] by auto
  qed
qed

lemma removal_keeps_shape:
  assumes inv: "ids_inv t" "slots_ok S t"
    and step: "t' = t \<or>
         (\<exists>p b'. p < length (buckets t) \<and> bucket_index b' = bucket_index (buckets t ! p) \<and>
            length (items b') = length (items (buckets t ! p)) \<and>
            (t' = t\<lparr>buckets := (buckets t)[p := b']\<rparr> \<or>
             t' = t\<lparr>buckets := erase p (buckets t),
                    empty_stack := bucket_index (buckets t ! p) # empty_stack t\<rparr>))"
  shows "ids_inv t' \<and> slots_ok S t'"
proof -
  from step consider "t' = t"
    | p b' where "p < length (buckets t)" "bucket_index b' = bucket_index (buckets t ! p)"
        "length (items b') = length (items (buckets t ! p))" "t' = t\<lparr>buckets := (buckets t)[p := b']\<rparr>"
    | p where "p < length (buckets t)" "t' = t\<lparr>buckets := erase p (buckets t),
                    empty_stack := bucket_index (buckets t ! p) # empty_stack t\<rparr>"
    by blast
  then show ?thesis
  proof cases
    case 1
    then show ?thesis using inv by simp
  next
    case 2
    have "length (items b') = S" using 2 inv(2) by (simp add: slots_ok_def)
    then show ?thesis using 2 inv ids_inv_update [of t b' p] slots_ok_update [of S t b' p] by simp
  next
    case 3
    then show ?thesis
      using inv ids_inv_erase [of t p] slots_ok_erase [where S = S and t = t and p = p] by simp
  qed
qed

lemma cache_loop_shape:
  "ids_inv t \<Longrightarrow> slots_ok S t \<Longrightarrow> ids_inv (cache_loop S T0 n t) \<and> slots_ok S (cache_loop S T0 n t)"
proof (induction n arbitrary: t)
  case 0
  then show ?case by simp
next
  case (Suc n)
  then show ?case using ids_inv_bucket [of t S T0] slots_ok_bucket [of S t T0] by simp
qed

text \<open>
  Every table that the public members can produce keeps its bucket indices pairwise
  different and its arrays at \<open>S\<close> slots, whatever was inserted or removed.
\<close>

theorem reachable_shape:
  assumes "reachable S T0 t" and "0 < S"
  shows "ids_inv t \<and> slots_ok S t"
  using assms
proof (induction rule: reachable.induct)
  case (constructed cache)
  have "ids_inv \<lparr>buckets = [], empty_stack = [], bucket_hiindex = 0\<rparr>"
    and "slots_ok S \<lparr>buckets = [], empty_stack = [], bucket_hiindex = 0\<rparr>"
    by (simp_all add: ids_inv_def slots_ok_def)
  then show ?case unfolding new_index_table_def by (rule cache_loop_shape)
next
  case (inserted t v)
  then show ?case using ids_inv_table_insert [of t S T0 v] slots_ok_table_insert [of S t T0 v] by simp
next
  case (removed_value t v t' r)
  then show ?case
    using removal_keeps_shape [of t S t'] removet_cases [of S T0 t v t' r] by blast
next
  case (removed_index t i t' x)
  then show ?case
    using removal_keeps_shape [of t S t'] removei_cases [of S T0 t i t' x] by blast
qed

lemmas inv_simps = slots_ok_def exact_def ids_inv_def bucket_inv_def slots_used_def

section \<open>Removal\<close>

lemma bucket_remove_present:
  assumes "length (items b) = S" and "S < 2 ^ 31" and "v \<in> set (items b)"
  defines "k \<equiv> find_if (\<lambda>src. src = v) (items b)"
  shows "bucket_remove S T0 b v =
           Inr (b\<lparr>items := (items b)[k := T0], filled := size_t (int (filled b) - 1)\<rparr>, int k)"
    and "k < S" and "items b ! k = v"
proof -
  show k: "k < S" using assms find_if_lt_iff [of "\<lambda>src. src = v" "items b"] by auto
  show "items b ! k = v" using k assms(1) find_if_nth [of "\<lambda>src. src = v" "items b"] by (simp add: k_def)
  show "bucket_remove S T0 b v =
           Inr (b\<lparr>items := (items b)[k := T0], filled := size_t (int (filled b) - 1)\<rparr>, int k)"
    using k distance_small [OF assms(1,2), of "\<lambda>src. src = v"]
    by (simp add: bucket_remove_def store_def Let_def k_def)
qed

lemma bucket_remove_absent:
  assumes "length (items b) = S" and "S < 2 ^ 31" and "v \<notin> set (items b)"
  shows "bucket_remove S T0 b v = Inl (OutOfBoundsStore S)"
proof -
  have "find_if (\<lambda>src. src = v) (items b) = S"
    using assms find_if_eq_length_iff [of "\<lambda>src. src = v" "items b"] by auto
  then show ?thesis
    using distance_small [OF assms(1,2), of "\<lambda>src. src = v"]
    by (simp add: bucket_remove_def store_def Let_def)
qed

lemma filter_update_other:
  assumes "p < length xs" and "\<not> P (xs ! p)" and "\<not> P y"
  shows "filter P (xs[p := y]) = filter P xs"
proof -
  have "xs[p := y] = take p xs @ y # drop (Suc p) xs" using assms(1) by (rule upd_conv_take_nth_drop)
  moreover have "xs = take p xs @ xs ! p # drop (Suc p) xs" using assms(1) by (rule erase_split)
  ultimately have "filter P (xs[p := y]) = filter P (take p xs) @ filter P (drop (Suc p) xs)"
    and "filter P xs = filter P (take p xs) @ filter P (drop (Suc p) xs)"
    using assms(2,3) by (simp, metis filter.simps(2) filter_append)
  then show ?thesis by simp
qed

lemma filter_erase_other:
  assumes "p < length xs" and "\<not> P (xs ! p)"
  shows "filter P (erase p xs) = filter P xs"
proof -
  have "xs = take p xs @ xs ! p # drop (Suc p) xs" using assms(1) by (rule erase_split)
  then have "filter P xs = filter P (take p xs) @ filter P (drop (Suc p) xs)"
    using assms(2) by (metis filter.simps(2) filter_append)
  then show ?thesis by (simp add: erase_def)
qed

lemma slot_in_items:
  assumes "slots_ok S t" and "0 < S" and "p < length (buckets t)"
  shows "items (buckets t ! p) ! (n mod S) \<in> set (items (buckets t ! p))"
proof -
  have "length (items (buckets t ! p)) = S" using assms by (simp add: slots_ok_def)
  then show ?thesis using assms(2) by simp
qed

lemma removei_absent:
  assumes "find_if (\<lambda>bck. size_t (bucket_index bck) = size_t i div S) (buckets t) = length (buckets t)"
  shows "removei S T0 t i = Inr (t, T0)" and "geti S T0 t i = T0"
  using assms by (simp_all add: removei_def geti_def)

lemma removei_present:
  fixes T0 :: 'a and t :: "'a index_table"
  assumes ok: "slots_ok S t" and S: "0 < S" and S31: "S < 2 ^ 31"
    and p: "p = find_if (\<lambda>bck. size_t (bucket_index bck) = size_t i div S) (buckets t)"
    and plt: "p < length (buckets t)"
  defines "b \<equiv> buckets t ! p"
  defines "itm \<equiv> items b ! (size_t i mod S)"
  defines "b' \<equiv> b\<lparr>items := (items b)[find_if (\<lambda>src. src = itm) (items b) := T0],
                   filled := size_t (int (filled b) - 1)\<rparr>"
  shows "removei S T0 t i =
           (if filled b' \<le> 0
            then Inr (t\<lparr>buckets := erase p (buckets t),
                        empty_stack := bucket_index b # empty_stack t\<rparr>, itm)
            else Inr (t\<lparr>buckets := (buckets t)[p := b']\<rparr>, itm))"
    and "geti S T0 t i = itm"
    and "size_t (bucket_index b) = size_t i div S"
proof -
  have len: "length (items b) = S" using ok plt by (simp add: slots_ok_def b_def)
  have mem: "itm \<in> set (items b)" using len S by (simp add: itm_def)
  note br = bucket_remove_present(1) [OF len S31 mem, of T0]
  have ne: "find_if (\<lambda>bck. size_t (bucket_index bck) = size_t i div S) (buckets t) \<noteq> length (buckets t)"
    using p plt by simp
  show "removei S T0 t i =
           (if filled b' \<le> 0
            then Inr (t\<lparr>buckets := erase p (buckets t),
                        empty_stack := bucket_index b # empty_stack t\<rparr>, itm)
            else Inr (t\<lparr>buckets := (buckets t)[p := b']\<rparr>, itm))"
    using ne br by (simp add: removei_def Let_def p [symmetric] b_def [symmetric] itm_def [symmetric] b'_def)
  show "geti S T0 t i = itm" using ne by (simp add: geti_def Let_def p [symmetric] b_def itm_def)
  show "size_t (bucket_index b) = size_t i div S"
    using find_if_nth [of "\<lambda>bck. size_t (bucket_index bck) = size_t i div S" "buckets t"] p plt
    by (simp add: b_def)
qed

text \<open>
  \<open>removei\<close> of the revised header returns the value that \<open>geti\<close> returns for the
  same identifier, and never stores outside an array (for a bucket size below \<open>2^31\<close>,
  as in all that follows).
\<close>

theorem removei_returns_geti:
  assumes "slots_ok S t" and "0 < S" and "S < 2 ^ 31"
  shows "\<exists>t'. removei S T0 t i = Inr (t', geti S T0 t i)"
proof -
  let ?p = "find_if (\<lambda>bck. size_t (bucket_index bck) = size_t i div S) (buckets t)"
  show ?thesis
  proof (cases "?p = length (buckets t)")
    case True
    then show ?thesis using removei_absent [of i S t T0] by simp
  next
    case False
    then have "?p < length (buckets t)" using find_if_le [of _ "buckets t"] by (simp add: le_neq_implies_less)
    from removei_present(1,2) [OF assms refl this, of T0]
    show ?thesis by (simp split: if_splits)
  qed
qed

theorem removei_returns_geti_witness:
  "\<exists>t'. removei 2 (0 :: nat)
       \<lparr>buckets = [\<lparr>items = [7, 8], filled = 2, bucket_index = 0\<rparr>],
        empty_stack = [], bucket_hiindex = 0\<rparr> 1 = Inr (t', 8)"
  using removei_returns_geti [of 2
       "\<lparr>buckets = [\<lparr>items = [7, 8], filled = 2, bucket_index = 0\<rparr>],
        empty_stack = [], bucket_hiindex = 0\<rparr>" "0 :: nat" 1]
  by (simp add: slots_ok_def geti_def size_t_def)

text \<open>
  \<open>removei\<close> of the revised header selects the bucket by the quotient \<open>index / S\<close>:
  the buckets with another index are the same before and after the call, and when no
  bucket has that index the table is unchanged and the result is \<open>T()\<close>.
\<close>

theorem removei_target_bucket:
  assumes "slots_ok S t" and "0 < S" and "S < 2 ^ 31"
  shows "\<exists>t' x. removei S T0 t i = Inr (t', x) \<and>
           filter (\<lambda>b. size_t (bucket_index b) \<noteq> size_t i div S) (buckets t') =
           filter (\<lambda>b. size_t (bucket_index b) \<noteq> size_t i div S) (buckets t) \<and>
           ((\<forall>b\<in>set (buckets t). size_t (bucket_index b) \<noteq> size_t i div S) \<longrightarrow> t' = t \<and> x = T0)"
proof -
  let ?q = "\<lambda>bck. size_t (bucket_index bck) = size_t i div S"
  let ?p = "find_if ?q (buckets t)"
  show ?thesis
  proof (cases "?p = length (buckets t)")
    case True
    then show ?thesis using removei_absent [of i S t T0] by simp
  next
    case False
    then have plt: "?p < length (buckets t)" using find_if_le [of _ "buckets t"] by (simp add: le_neq_implies_less)
    note rp = removei_present(1) [OF assms refl plt, of T0]
    have here: "\<not> size_t (bucket_index (buckets t ! ?p)) \<noteq> size_t i div S"
      using removei_present(3) [OF assms refl plt] by simp
    have some: "\<not> (\<forall>b\<in>set (buckets t). size_t (bucket_index b) \<noteq> size_t i div S)"
      using plt here nth_mem by blast
    obtain t' x where r: "removei S T0 t i = Inr (t', x)"
      and shape: "buckets t' = erase ?p (buckets t) \<or>
        (\<exists>b'. bucket_index b' = bucket_index (buckets t ! ?p) \<and> buckets t' = (buckets t)[?p := b'])"
    proof (cases "size_t (int (filled (buckets t ! ?p)) - 1) \<le> 0")
      case True
      then show ?thesis using rp that by simp
    next
      case False
      with rp obtain b' where "removei S T0 t i =
          Inr (t\<lparr>buckets := (buckets t)[?p := b']\<rparr>, items (buckets t ! ?p) ! (size_t i mod S))"
        and "bucket_index b' = bucket_index (buckets t ! ?p)"
        by simp
      then show ?thesis
        by (intro that [of "t\<lparr>buckets := (buckets t)[?p := b']\<rparr>"]) auto
    qed
    have "filter (\<lambda>b. size_t (bucket_index b) \<noteq> size_t i div S) (buckets t') =
          filter (\<lambda>b. size_t (bucket_index b) \<noteq> size_t i div S) (buckets t)"
      using shape
    proof
      assume "buckets t' = erase ?p (buckets t)"
      then show ?thesis
        using filter_erase_other [of ?p "buckets t" "\<lambda>b. size_t (bucket_index b) \<noteq> size_t i div S", OF plt here]
        by simp
    next
      assume "\<exists>b'. bucket_index b' = bucket_index (buckets t ! ?p) \<and> buckets t' = (buckets t)[?p := b']"
      then obtain b' where "bucket_index b' = bucket_index (buckets t ! ?p)"
        and "buckets t' = (buckets t)[?p := b']" by blast
      then show ?thesis
        using filter_update_other [of ?p "buckets t" "\<lambda>b. size_t (bucket_index b) \<noteq> size_t i div S" b', OF plt here]
          here by simp
    qed
    then show ?thesis using r some by blast
  qed
qed

theorem removei_target_bucket_witness:
  "\<exists>t' x. removei 2 (0 :: nat)
       \<lparr>buckets = [\<lparr>items = [7, 8], filled = 2, bucket_index = 0\<rparr>,
                  \<lparr>items = [9, 0], filled = 1, bucket_index = 1\<rparr>],
        empty_stack = [], bucket_hiindex = 1\<rparr> 2 = Inr (t', x) \<and>
     filter (\<lambda>b. size_t (bucket_index b) \<noteq> 1) (buckets t') =
       [\<lparr>items = [7, 8], filled = 2, bucket_index = 0\<rparr>]"
  using removei_target_bucket [of 2
       "\<lparr>buckets = [\<lparr>items = [7, 8], filled = 2, bucket_index = 0\<rparr>,
                  \<lparr>items = [9, 0], filled = 1, bucket_index = 1\<rparr>],
        empty_stack = [], bucket_hiindex = 1\<rparr>" "0 :: nat" 2]
  by (simp add: slots_ok_def size_t_def)

lemma removet_absent:
  assumes "find_if (\<lambda>bckt. item S bckt v \<noteq> - 1) (buckets t) = length (buckets t)"
  shows "removet S T0 t v = Inr (t, - 1)"
  using assms by (simp add: removet_def)

lemma removet_present:
  fixes T0 :: 'a and t :: "'a index_table"
  assumes ok: "slots_ok S t" and S31: "S < 2 ^ 31"
    and p: "p = find_if (\<lambda>bckt. item S bckt v \<noteq> - 1) (buckets t)"
    and plt: "p < length (buckets t)"
  defines "b \<equiv> buckets t ! p"
  defines "k \<equiv> find_if (\<lambda>src. src = v) (items b)"
  defines "b' \<equiv> b\<lparr>items := (items b)[k := T0], filled := size_t (int (filled b) - 1)\<rparr>"
  shows "removet S T0 t v =
           (if filled b' \<le> 0
            then Inr (t\<lparr>buckets := erase p (buckets t),
                        empty_stack := bucket_index b # empty_stack t\<rparr>,
                      table_index S (int k) (bucket_index b))
            else Inr (t\<lparr>buckets := (buckets t)[p := b']\<rparr>, table_index S (int k) (bucket_index b)))"
    and "v \<in> set (items b)" and "k < S" and "items b ! k = v"
proof -
  have len: "length (items b) = S" using ok plt by (simp add: slots_ok_def b_def)
  have "item S b v \<noteq> - 1"
    using find_if_nth [of "\<lambda>bckt. item S bckt v \<noteq> - 1" "buckets t"] p plt by (simp add: b_def)
  then show mem: "v \<in> set (items b)" using item_found_iff [OF len S31] by simp
  note br = bucket_remove_present [OF len S31 mem]
  show "k < S" and "items b ! k = v" using br(2,3) by (simp_all add: k_def)
  have ne: "find_if (\<lambda>bckt. item S bckt v \<noteq> - 1) (buckets t) \<noteq> length (buckets t)"
    using p plt by simp
  show "removet S T0 t v =
           (if filled b' \<le> 0
            then Inr (t\<lparr>buckets := erase p (buckets t),
                        empty_stack := bucket_index b # empty_stack t\<rparr>,
                      table_index S (int k) (bucket_index b))
            else Inr (t\<lparr>buckets := (buckets t)[p := b']\<rparr>, table_index S (int k) (bucket_index b)))"
    using ne br(1) [of T0]
    by (simp add: removet_def Let_def p [symmetric] b_def [symmetric] k_def [symmetric] b'_def)
qed

text \<open>
  \<open>removet\<close> of the revised header only calls \<open>index_bucket::remove\<close> on a bucket that
  holds the value, so it never stores outside an array.
\<close>

theorem removet_no_fault:
  assumes "slots_ok S t" and "S < 2 ^ 31"
  shows "\<exists>t' r. removet S T0 t v = Inr (t', r)"
proof (cases "find_if (\<lambda>bckt. item S bckt v \<noteq> - 1) (buckets t) = length (buckets t)")
  case True
  then show ?thesis using removet_absent [of S v t T0] by simp
next
  case False
  then have "find_if (\<lambda>bckt. item S bckt v \<noteq> - 1) (buckets t) < length (buckets t)"
    using find_if_le [of _ "buckets t"] by (simp add: le_neq_implies_less)
  from removet_present(1) [OF assms refl this, of T0]
  show ?thesis by (simp split: if_splits)
qed

lemma released:
  assumes ids: "ids_inv t" and plt: "p < length (buckets t)"
  defines "t' \<equiv> t\<lparr>buckets := erase p (buckets t),
                    empty_stack := bucket_index (buckets t ! p) # empty_stack t\<rparr>"
  shows "bucket_index (buckets t ! p) \<notin> bucket_index ` set (buckets t')"
    and "buckets (fst (bucket S T0 t')) =
           buckets t' @ [new_index_bucket S T0 (bucket_index (buckets t ! p))]"
proof -
  have "ids_inv t'" unfolding t'_def using ids plt by (rule ids_inv_erase)
  then have "distinct (map bucket_index (buckets t') @ bucket_index (buckets t ! p) # empty_stack t)"
    by (simp add: ids_inv_def t'_def)
  then show "bucket_index (buckets t ! p) \<notin> bucket_index ` set (buckets t')" by auto
  show "buckets (fst (bucket S T0 t')) =
           buckets t' @ [new_index_bucket S T0 (bucket_index (buckets t ! p))]"
    by (simp add: bucket_def t'_def Let_def)
qed

text \<open>
  In the revised header a removal that brings the counter of its bucket to 0 erases the
  bucket and pushes its index: the index is no longer among the buckets of the vector,
  and the next \<open>bucket()\<close> creates a bucket with that index.
\<close>

theorem removet_drained:
  fixes T0 :: 'a and t :: "'a index_table"
  assumes ok: "slots_ok S t" and ids: "ids_inv t" and S31: "S < 2 ^ 31"
    and p: "p = find_if (\<lambda>bckt. item S bckt v \<noteq> - 1) (buckets t)"
    and plt: "p < length (buckets t)"
    and drained: "size_t (int (filled (buckets t ! p)) - 1) = 0"
  defines "t' \<equiv> t\<lparr>buckets := erase p (buckets t),
                    empty_stack := bucket_index (buckets t ! p) # empty_stack t\<rparr>"
  shows "\<exists>r. removet S T0 t v = Inr (t', r)"
    and "bucket_index (buckets t ! p) \<notin> bucket_index ` set (buckets t')"
    and "buckets (fst (bucket S T0 t')) =
           buckets t' @ [new_index_bucket S T0 (bucket_index (buckets t ! p))]"
proof -
  show "\<exists>r. removet S T0 t v = Inr (t', r)"
    using removet_present(1) [OF ok S31 p plt, of T0] drained by (simp add: t'_def)
  show "bucket_index (buckets t ! p) \<notin> bucket_index ` set (buckets t')"
    unfolding t'_def using ids plt by (rule released(1))
  show "buckets (fst (bucket S T0 t')) =
           buckets t' @ [new_index_bucket S T0 (bucket_index (buckets t ! p))]"
    unfolding t'_def using ids plt by (rule released(2))
qed

theorem removei_drained:
  fixes T0 :: 'a and t :: "'a index_table"
  assumes ok: "slots_ok S t" and ids: "ids_inv t" and S: "0 < S" and S31: "S < 2 ^ 31"
    and p: "p = find_if (\<lambda>bck. size_t (bucket_index bck) = size_t i div S) (buckets t)"
    and plt: "p < length (buckets t)"
    and drained: "size_t (int (filled (buckets t ! p)) - 1) = 0"
  defines "t' \<equiv> t\<lparr>buckets := erase p (buckets t),
                    empty_stack := bucket_index (buckets t ! p) # empty_stack t\<rparr>"
  shows "\<exists>x. removei S T0 t i = Inr (t', x)"
    and "bucket_index (buckets t ! p) \<notin> bucket_index ` set (buckets t')"
    and "buckets (fst (bucket S T0 t')) =
           buckets t' @ [new_index_bucket S T0 (bucket_index (buckets t ! p))]"
proof -
  show "\<exists>x. removei S T0 t i = Inr (t', x)"
    using removei_present(1) [OF ok S S31 p plt, of T0] drained by (simp add: t'_def)
  show "bucket_index (buckets t ! p) \<notin> bucket_index ` set (buckets t')"
    unfolding t'_def using ids plt by (rule released(1))
  show "buckets (fst (bucket S T0 t')) =
           buckets t' @ [new_index_bucket S T0 (bucket_index (buckets t ! p))]"
    unfolding t'_def using ids plt by (rule released(2))
qed

theorem removet_drained_witness:
  "\<exists>r. removet 2 (0 :: nat)
       \<lparr>buckets = [\<lparr>items = [7, 8], filled = 2, bucket_index = 0\<rparr>,
                  \<lparr>items = [9, 0], filled = 1, bucket_index = 1\<rparr>],
        empty_stack = [], bucket_hiindex = 1\<rparr> 9 =
     Inr (\<lparr>buckets = [\<lparr>items = [7, 8], filled = 2, bucket_index = 0\<rparr>],
           empty_stack = [1], bucket_hiindex = 1\<rparr>, r)"
  using removet_drained(1) [of 2
       "\<lparr>buckets = [\<lparr>items = [7, 8], filled = 2, bucket_index = 0\<rparr>,
                  \<lparr>items = [9, 0], filled = 1, bucket_index = 1\<rparr>],
        empty_stack = [], bucket_hiindex = 1\<rparr>" 1 9 "0 :: nat"]
  by (simp add: inv_simps item_def int32_t_def size_t_def erase_def)

theorem removei_drained_witness:
  "\<exists>x. removei 2 (0 :: nat)
       \<lparr>buckets = [\<lparr>items = [7, 8], filled = 2, bucket_index = 0\<rparr>,
                  \<lparr>items = [9, 0], filled = 1, bucket_index = 1\<rparr>],
        empty_stack = [], bucket_hiindex = 1\<rparr> 2 =
     Inr (\<lparr>buckets = [\<lparr>items = [7, 8], filled = 2, bucket_index = 0\<rparr>],
           empty_stack = [1], bucket_hiindex = 1\<rparr>, x)"
  using removei_drained(1) [of 2
       "\<lparr>buckets = [\<lparr>items = [7, 8], filled = 2, bucket_index = 0\<rparr>,
                  \<lparr>items = [9, 0], filled = 1, bucket_index = 1\<rparr>],
        empty_stack = [], bucket_hiindex = 1\<rparr>" 1 2 "0 :: nat"]
  by (simp add: inv_simps size_t_def erase_def)

section \<open>Tables with exact fill counters\<close>

lemma exact_slots_ok: "exact S T0 t \<Longrightarrow> slots_ok S t"
  by (simp add: exact_def slots_ok_def bucket_inv_def)

lemma exact_bucket: "exact S T0 t \<Longrightarrow> exact S T0 (fst (bucket S T0 t))"
  using bucket_buckets [of S T0 t] bucket_inv_new [of S T0] by (auto simp: exact_def)

lemma exact_update:
  "exact S T0 t \<Longrightarrow> bucket_inv S T0 b' \<Longrightarrow> exact S T0 (t\<lparr>buckets := (buckets t)[p := b']\<rparr>)"
  by (auto simp: exact_def dest!: subsetD [OF set_update_subset_insert])

lemma exact_erase:
  "exact S T0 t \<Longrightarrow> exact S T0 (t\<lparr>buckets := erase p (buckets t), empty_stack := es\<rparr>)"
  using set_erase_subset [of p "buckets t"] by (auto simp: exact_def)

text \<open>
  \<open>insert\<close> of a value other than \<open>T()\<close>, \<open>removet\<close> of a value other than \<open>T()\<close>
  and \<open>removei\<close> of an identifier whose slot is in use keep every fill counter exact.
\<close>

theorem table_insert_exact:
  assumes ex: "exact S T0 t" and S0: "0 < S" and S: "S < 2 ^ 31" and v: "v \<noteq> T0"
  shows "exact S T0 (fst (table_insert S T0 t v))"
proof -
  obtain t1 pos where t1: "t1 = t \<or> t1 = fst (bucket S T0 t)" and pos: "pos < length (buckets t1)"
    and room: "filled (buckets t1 ! pos) < S"
    and eq: "table_insert S T0 t v =
             (t1\<lparr>buckets := (buckets t1)[pos := fst (bucket_insert S T0 (buckets t1 ! pos) v)]\<rparr>,
              table_index S (snd (bucket_insert S T0 (buckets t1 ! pos) v)) (bucket_index (buckets t1 ! pos)))"
    using table_insert_chosen [OF S0, of t T0 v] by blast
  have ex1: "exact S T0 t1" using t1 ex exact_bucket [of S T0 t] by auto
  then have "bucket_inv S T0 (buckets t1 ! pos)" using pos by (simp add: exact_def)
  then have "bucket_inv S T0 (fst (bucket_insert S T0 (buckets t1 ! pos) v))"
    using room S v by (rule bucket_insert_room(4))
  then show ?thesis unfolding eq using ex1 by (simp add: exact_update)
qed

lemma bucket_remove_inv:
  assumes inv: "bucket_inv S T0 b" and S: "S < 2 ^ 31" and mem: "v \<in> set (items b)" and v: "v \<noteq> T0"
  shows "bucket_inv S T0
           (b\<lparr>items := (items b)[find_if (\<lambda>src. src = v) (items b) := T0],
              filled := size_t (int (filled b) - 1)\<rparr>)"
proof -
  let ?k = "find_if (\<lambda>src. src = v) (items b)"
  have len: "length (items b) = S" and f: "filled b = slots_used T0 (items b)"
    using inv by (simp_all add: bucket_inv_def)
  have k: "?k < length (items b)" and at: "items b ! ?k = v"
    using bucket_remove_present(2,3) [OF len S mem] len by simp_all
  have dec: "Suc (slots_used T0 ((items b)[?k := T0])) = slots_used T0 (items b)"
    using k at v by (intro slots_used_update_used) simp_all
  then have pos: "0 < filled b" using f by simp
  have "filled b \<le> S" using inv by (rule bucket_inv_filled_le)
  then have "size_t (int (filled b - 1)) = filled b - 1" using S by (intro size_t_id) simp
  moreover have "int (filled b - 1) = int (filled b) - 1" using pos by simp
  ultimately have "size_t (int (filled b) - 1) = filled b - 1" by simp
  then show ?thesis using len f dec by (simp add: bucket_inv_def)
qed

theorem removet_exact:
  assumes ex: "exact S T0 t" and S: "S < 2 ^ 31" and v: "v \<noteq> T0"
  shows "\<exists>t' r. removet S T0 t v = Inr (t', r) \<and> exact S T0 t'"
proof -
  let ?p = "find_if (\<lambda>bckt. item S bckt v \<noteq> - 1) (buckets t)"
  show ?thesis
  proof (cases "?p = length (buckets t)")
    case True
    then show ?thesis using removet_absent [of S v t T0] ex by simp
  next
    case False
    then have plt: "?p < length (buckets t)" using find_if_le [of _ "buckets t"] by (simp add: le_neq_implies_less)
    note rp = removet_present [OF exact_slots_ok [OF ex] S refl plt]
    have "bucket_inv S T0 (buckets t ! ?p)" using ex plt by (simp add: exact_def)
    then have inv': "bucket_inv S T0
           ((buckets t ! ?p)\<lparr>items := (items (buckets t ! ?p))[find_if (\<lambda>src. src = v) (items (buckets t ! ?p)) := T0],
              filled := size_t (int (filled (buckets t ! ?p)) - 1)\<rparr>)"
      using S rp(2) v by (rule bucket_remove_inv)
    show ?thesis
    proof (cases "size_t (int (filled (buckets t ! ?p)) - 1) \<le> 0")
      case True
      then show ?thesis using rp(1) [of T0] ex by (simp add: exact_erase)
    next
      case False
      then show ?thesis using rp(1) [of T0] ex inv' by (simp add: exact_update)
    qed
  qed
qed

theorem removei_exact:
  assumes ex: "exact S T0 t" and S0: "0 < S" and S: "S < 2 ^ 31" and used: "geti S T0 t i \<noteq> T0"
  shows "\<exists>t'. removei S T0 t i = Inr (t', geti S T0 t i) \<and> exact S T0 t'"
proof -
  let ?p = "find_if (\<lambda>bck. size_t (bucket_index bck) = size_t i div S) (buckets t)"
  have "?p \<noteq> length (buckets t)" using used removei_absent(2) [of i S t T0] by auto
  then have plt: "?p < length (buckets t)" using find_if_le [of _ "buckets t"] by (simp add: le_neq_implies_less)
  note ok = exact_slots_ok [OF ex]
  note rp = removei_present(1,2) [OF ok S0 S refl plt, of T0]
  let ?v = "items (buckets t ! ?p) ! (size_t i mod S)"
  have v: "?v \<noteq> T0" using used rp(2) by simp
  have mem: "?v \<in> set (items (buckets t ! ?p))" using ok S0 plt by (rule slot_in_items)
  have "bucket_inv S T0 (buckets t ! ?p)" using ex plt by (simp add: exact_def)
  then have inv': "bucket_inv S T0
           ((buckets t ! ?p)\<lparr>items := (items (buckets t ! ?p))[find_if (\<lambda>src. src = ?v) (items (buckets t ! ?p)) := T0],
              filled := size_t (int (filled (buckets t ! ?p)) - 1)\<rparr>)"
    using S mem v by (rule bucket_remove_inv)
  show ?thesis
  proof (cases "size_t (int (filled (buckets t ! ?p)) - 1) \<le> 0")
    case True
    then show ?thesis using rp ex by (simp add: exact_erase)
  next
    case False
    then show ?thesis using rp ex inv' by (simp add: exact_update)
  qed
qed

section \<open>The round trip on tables with exact fill counters\<close>

lemma find_bucket_by_index:
  assumes d: "distinct (map bucket_index bs)" and p: "p < length bs"
    and r: "\<forall>b\<in>set bs. 0 \<le> bucket_index b \<and> bucket_index b < 2 ^ 64"
  shows "find_if (\<lambda>bck. size_t (bucket_index bck) = nat (bucket_index (bs ! p))) bs = p"
proof (rule find_if_eqI [OF p])
  have rp: "0 \<le> bucket_index (bs ! p) \<and> bucket_index (bs ! p) < 2 ^ 64" using r p by simp
  then show "size_t (bucket_index (bs ! p)) = nat (bucket_index (bs ! p))" by (simp add: size_t_nat)
  show "size_t (bucket_index (bs ! j)) \<noteq> nat (bucket_index (bs ! p))" if "j < p" for j
  proof -
    have rj: "0 \<le> bucket_index (bs ! j) \<and> bucket_index (bs ! j) < 2 ^ 64" using r p that by simp
    have "map bucket_index bs ! j \<noteq> map bucket_index bs ! p"
      using d p that nth_eq_iff_index_eq [of "map bucket_index bs" j p] by simp
    then have "bucket_index (bs ! j) \<noteq> bucket_index (bs ! p)" using p that by simp
    then have "nat (bucket_index (bs ! j)) \<noteq> nat (bucket_index (bs ! p))"
      using rj rp by (simp add: nat_eq_iff)
    then show ?thesis using rj by (simp add: size_t_nat)
  qed
qed

lemma hiindex_bucket: "bucket_hiindex (fst (bucket S T0 t)) \<le> bucket_hiindex t + 1"
  by (cases "empty_stack t") (simp_all add: bucket_def Let_def)

lemma range_small:
  assumes "ids_inv t" and "0 < S" and "(bucket_hiindex t + 2) * int S \<le> 2 ^ 31"
  shows "S < 2 ^ 31"
proof -
  have "0 \<le> bucket_hiindex t" using assms(1) by (simp add: ids_inv_def)
  then have "2 * int S \<le> (bucket_hiindex t + 2) * int S" by (intro mult_right_mono) simp_all
  then have "2 * int S \<le> 2147483648" using assms(3) by simp
  then have "int S < 2147483648" by simp
  then show ?thesis by simp
qed

lemma table_insert_slot:
  assumes ex: "exact S T0 t" and ids: "ids_inv t" and S0: "0 < S" and v: "v \<noteq> T0"
    and range: "(bucket_hiindex t + 2) * int S \<le> 2 ^ 31"
  shows "\<exists>t1 pos k n.
           (t1 = t \<or> t1 = fst (bucket S T0 t)) \<and> pos < length (buckets t1) \<and> k < S \<and>
           bucket_inv S T0 (buckets t1 ! pos) \<and> items (buckets t1 ! pos) ! k = T0 \<and>
           table_insert S T0 t v =
             (t1\<lparr>buckets := (buckets t1)
                  [pos := (buckets t1 ! pos)\<lparr>items := (items (buckets t1 ! pos))[k := v],
                                             filled := Suc (filled (buckets t1 ! pos))\<rparr>]\<rparr>,
              int (k + n * S)) \<and>
           find_if (\<lambda>bck. size_t (bucket_index bck) = size_t (int (k + n * S)) div S)
             (buckets (fst (table_insert S T0 t v))) = pos \<and>
           size_t (int (k + n * S)) mod S = k"
proof -
  obtain t1 pos where t1: "t1 = t \<or> t1 = fst (bucket S T0 t)" and pos: "pos < length (buckets t1)"
    and room: "filled (buckets t1 ! pos) < S"
    and eq: "table_insert S T0 t v =
             (t1\<lparr>buckets := (buckets t1)[pos := fst (bucket_insert S T0 (buckets t1 ! pos) v)]\<rparr>,
              table_index S (snd (bucket_insert S T0 (buckets t1 ! pos) v)) (bucket_index (buckets t1 ! pos)))"
    using table_insert_chosen [OF S0, of t T0 v] by blast
  let ?b = "buckets t1 ! pos"
  let ?k = "find_if (\<lambda>itm. itm = T0) (items ?b)"
  let ?b' = "?b\<lparr>items := (items ?b)[?k := v], filled := Suc (filled ?b)\<rparr>"
  let ?bs' = "(buckets t1)[pos := ?b']"
  have hi0: "0 \<le> bucket_hiindex t" using ids by (simp add: ids_inv_def)
  have S31: "S < 2 ^ 31" using ids S0 range by (rule range_small)
  have ex1: "exact S T0 t1" using t1 ex exact_bucket [of S T0 t] by auto
  have ids1: "ids_inv t1" using t1 ids ids_inv_bucket [of t S T0] by auto
  have hi1: "bucket_hiindex t1 \<le> bucket_hiindex t + 1" using t1 hiindex_bucket [of S T0 t] by auto
  have inv: "bucket_inv S T0 ?b" using ex1 pos by (simp add: exact_def)
  note ins = bucket_insert_room [OF inv room S31 v]
  have "bucket_index ?b \<in> set (map bucket_index (buckets t1) @ empty_stack t1)"
    using pos by simp
  then have bi: "0 \<le> bucket_index ?b" "bucket_index ?b \<le> bucket_hiindex t1"
    using ids1 unfolding ids_inv_def by blast+
  define n where "n = nat (bucket_index ?b)"
  have n: "bucket_index ?b = int n" using bi(1) by (simp add: n_def)
  have "int n + 1 \<le> bucket_hiindex t + 2" using n bi(2) hi1 by simp
  then have "(int n + 1) * int S \<le> (bucket_hiindex t + 2) * int S" by (intro mult_right_mono) simp_all
  then have "(int n + 1) * int S \<le> 2 ^ 31" using range by simp
  moreover have "int (?k + n * S) < (int n + 1) * int S" using ins(2) by (simp add: algebra_simps)
  ultimately have ibound: "int (?k + n * S) < 2 ^ 31" by simp
  then have bound: "?k + n * S < 2 ^ 31" by (metis of_nat_less_numeral_power_cancel_iff)
  have "table_index S (int ?k) (int n) = int (?k + n * S)"
    using table_index_small [of "int ?k" "int n" S] ibound by simp
  then have eq': "table_insert S T0 t v = (t1\<lparr>buckets := ?bs'\<rparr>, int (?k + n * S))"
    unfolding eq using ins(1) n by simp
  have idx: "map bucket_index ?bs' = map bucket_index (buckets t1)"
    by (rule map_update_same) simp
  have d: "distinct (map bucket_index ?bs')" using ids1 unfolding idx ids_inv_def by simp
  have hi64: "bucket_hiindex t1 < 2 ^ 64"
  proof -
    have "(bucket_hiindex t + 2) * 1 \<le> (bucket_hiindex t + 2) * int S"
      using S0 hi0 by (intro mult_left_mono) simp_all
    then show ?thesis using hi1 range by simp
  qed
  have r: "\<forall>b\<in>set ?bs'. 0 \<le> bucket_index b \<and> bucket_index b < 2 ^ 64"
  proof
    fix b assume "b \<in> set ?bs'"
    then have "bucket_index b \<in> set (map bucket_index ?bs')" by simp
    then have "bucket_index b \<in> set (map bucket_index (buckets t1) @ empty_stack t1)"
      unfolding idx by simp
    then have "0 \<le> bucket_index b \<and> bucket_index b \<le> bucket_hiindex t1"
      using ids1 unfolding ids_inv_def by blast
    then show "0 \<le> bucket_index b \<and> bucket_index b < 2 ^ 64" using hi64 by simp
  qed
  have pos': "pos < length ?bs'" using pos by simp
  have at: "?bs' ! pos = ?b'" using pos by simp
  have "find_if (\<lambda>bck. size_t (bucket_index bck) = nat (bucket_index (?bs' ! pos))) ?bs' = pos"
    using d pos' r by (rule find_bucket_by_index)
  then have found: "find_if (\<lambda>bck. size_t (bucket_index bck) = n) ?bs' = pos"
    unfolding at using n by simp
  have sz: "size_t (int (?k + n * S)) = ?k + n * S"
    using bound by (intro size_t_id) (simp add: order_less_trans [of _ "2 ^ 31"])
  have "(?k + n * S) div S = n" and md: "(?k + n * S) mod S = ?k" using ins(2) by simp_all
  then have "find_if (\<lambda>bck. size_t (bucket_index bck) = size_t (int (?k + n * S)) div S)
             (buckets (fst (table_insert S T0 t v))) = pos"
    using found sz unfolding eq' by simp
  moreover have "size_t (int (?k + n * S)) mod S = ?k" using sz md by simp
  ultimately show ?thesis using t1 pos ins(2,3) inv eq' by blast
qed

text \<open>
  On a table of the revised header with exact fill counters, whose identifiers fit
  \<open>int32_t\<close> also after one more bucket, \<open>geti(insert(v)) = v\<close> for every \<open>v\<close> other
  than \<open>T()\<close>.
\<close>

theorem geti_table_insert:
  assumes ex: "exact S T0 t" and ids: "ids_inv t" and S0: "0 < S" and v: "v \<noteq> T0"
    and range: "(bucket_hiindex t + 2) * int S \<le> 2 ^ 31"
  shows "geti S T0 (fst (table_insert S T0 t v)) (snd (table_insert S T0 t v)) = v"
proof -
  obtain t1 pos k n where pos: "pos < length (buckets t1)"
    and k: "k < S" and inv: "bucket_inv S T0 (buckets t1 ! pos)"
    and eq: "table_insert S T0 t v =
             (t1\<lparr>buckets := (buckets t1)
                  [pos := (buckets t1 ! pos)\<lparr>items := (items (buckets t1 ! pos))[k := v],
                                             filled := Suc (filled (buckets t1 ! pos))\<rparr>]\<rparr>,
              int (k + n * S))"
    and found: "find_if (\<lambda>bck. size_t (bucket_index bck) = size_t (int (k + n * S)) div S)
             (buckets (fst (table_insert S T0 t v))) = pos"
    and slot: "size_t (int (k + n * S)) mod S = k"
    using table_insert_slot [OF assms] by blast
  have len: "length (items (buckets t1 ! pos)) = S" using inv by (simp add: bucket_inv_def)
  have "geti S T0 (fst (table_insert S T0 t v)) (int (k + n * S)) =
        items (buckets (fst (table_insert S T0 t v)) ! pos) ! k"
    using found slot pos unfolding geti_def Let_def by (simp add: eq)
  also have "\<dots> = v" using k len pos by (simp add: eq)
  finally show ?thesis by (simp add: eq)
qed

theorem geti_table_insert_witness:
  "geti 2 (0 :: nat)
     (fst (table_insert 2 0 \<lparr>buckets = [\<lparr>items = [7, 0], filled = 1, bucket_index = 0\<rparr>],
                             empty_stack = [], bucket_hiindex = 0\<rparr> 5))
     (snd (table_insert 2 (0 :: nat) \<lparr>buckets = [\<lparr>items = [7, 0], filled = 1, bucket_index = 0\<rparr>],
                             empty_stack = [], bucket_hiindex = 0\<rparr> 5)) = 5"
  using geti_table_insert [of 2 "0 :: nat"
      "\<lparr>buckets = [\<lparr>items = [7, 0], filled = 1, bucket_index = 0\<rparr>],
        empty_stack = [], bucket_hiindex = 0\<rparr>" 5]
  by (simp add: inv_simps)

lemma erase_update: "erase p (xs[p := y]) = erase p xs"
  by (simp add: erase_def)

text \<open>
  On such a table \<open>removei(insert(v)) = v\<close>, and when \<open>v\<close> was in no bucket before,
  \<open>gett(v)\<close> returns \<open>-1\<close> afterwards.
\<close>

theorem removei_table_insert:
  assumes ex: "exact S T0 t" and ids: "ids_inv t" and S0: "0 < S" and v: "v \<noteq> T0"
    and range: "(bucket_hiindex t + 2) * int S \<le> 2 ^ 31"
  shows "\<exists>t''. removei S T0 (fst (table_insert S T0 t v)) (snd (table_insert S T0 t v)) = Inr (t'', v) \<and>
           ((\<forall>b\<in>set (buckets t). v \<notin> set (items b)) \<longrightarrow> gett S t'' v = - 1)"
proof -
  obtain t1 pos k n where t1: "t1 = t \<or> t1 = fst (bucket S T0 t)" and pos: "pos < length (buckets t1)"
    and k: "k < S" and inv: "bucket_inv S T0 (buckets t1 ! pos)" and free: "items (buckets t1 ! pos) ! k = T0"
    and eq: "table_insert S T0 t v =
             (t1\<lparr>buckets := (buckets t1)
                  [pos := (buckets t1 ! pos)\<lparr>items := (items (buckets t1 ! pos))[k := v],
                                             filled := Suc (filled (buckets t1 ! pos))\<rparr>]\<rparr>,
              int (k + n * S))"
    and found: "find_if (\<lambda>bck. size_t (bucket_index bck) = size_t (int (k + n * S)) div S)
             (buckets (fst (table_insert S T0 t v))) = pos"
    and slot: "size_t (int (k + n * S)) mod S = k"
    using table_insert_slot [OF assms] by blast
  let ?b = "buckets t1 ! pos"
  let ?b' = "?b\<lparr>items := (items ?b)[k := v], filled := Suc (filled ?b)\<rparr>"
  let ?t' = "fst (table_insert S T0 t v)"
  let ?i = "snd (table_insert S T0 t v)"
  have t': "?t' = t1\<lparr>buckets := (buckets t1)[pos := ?b']\<rparr>" and i: "?i = int (k + n * S)"
    by (simp_all add: eq)
  have len: "length (items ?b) = S" using inv by (simp add: bucket_inv_def)
  have ok1: "slots_ok S t1"
    using t1 ex exact_slots_ok [of S T0 t] slots_ok_bucket [of S t T0] by auto
  have ok': "slots_ok S ?t'" using exact_slots_ok [OF ex] S0 by (rule slots_ok_table_insert)
  have pos': "pos < length (buckets ?t')" using pos by (simp add: t')
  have at: "buckets ?t' ! pos = ?b'" using pos by (simp add: t')
  have p: "pos = find_if (\<lambda>bck. size_t (bucket_index bck) = size_t ?i div S) (buckets ?t')"
    using found by (simp add: i)
  have itm: "items (buckets ?t' ! pos) ! (size_t ?i mod S) = v"
    using slot k len by (simp add: at i)
  have S31: "S < 2 ^ 31" using ids S0 range by (rule range_small)
  note rp = removei_present(1) [OF ok' S0 S31 p pos', of T0, unfolded itm]
  define b'' where "b'' = (buckets ?t' ! pos)
      \<lparr>items := (items (buckets ?t' ! pos))[find_if (\<lambda>src. src = v) (items (buckets ?t' ! pos)) := T0],
       filled := size_t (int (filled (buckets ?t' ! pos)) - 1)\<rparr>"
  have res: "removei S T0 ?t' ?i =
      (if filled b'' \<le> 0
       then Inr (?t'\<lparr>buckets := erase pos (buckets ?t'),
                    empty_stack := bucket_index (buckets ?t' ! pos) # empty_stack ?t'\<rparr>, v)
       else Inr (?t'\<lparr>buckets := (buckets ?t')[pos := b'']\<rparr>, v))"
    using rp by (simp add: b''_def)
  define t'' where "t'' = (if filled b'' \<le> 0
       then ?t'\<lparr>buckets := erase pos (buckets ?t'),
                    empty_stack := bucket_index (buckets ?t' ! pos) # empty_stack ?t'\<rparr>
       else ?t'\<lparr>buckets := (buckets ?t')[pos := b'']\<rparr>)"
  have r: "removei S T0 ?t' ?i = Inr (t'', v)" using res by (simp add: t''_def)
  have "gett S t'' v = - 1" if absent: "\<forall>b\<in>set (buckets t). v \<notin> set (items b)"
  proof -
    have absent1: "\<forall>b\<in>set (buckets t1). v \<notin> set (items b)"
      using t1 absent bucket_buckets [of S T0 t] v by (auto simp: new_index_bucket_def)
    then have nb: "v \<notin> set (items ?b)" using pos by simp
    have "find_if (\<lambda>src. src = v) ((items ?b)[k := v]) = k"
    proof (rule find_if_eqI)
      show "k < length ((items ?b)[k := v])" using k len by simp
      show "(items ?b)[k := v] ! k = v" using k len by simp
      show "(items ?b)[k := v] ! j \<noteq> v" if "j < k" for j
        using that k len nb nth_mem [of j "items ?b"] by auto
    qed
    then have items'': "items b'' = items ?b"
      using free by (simp add: b''_def at list_update_id [of "items ?b" k, unfolded free])
    then have nb'': "v \<notin> set (items b'')" using nb by simp
    have len'': "length (items b'') = S" using items'' len by simp
    have sub: "set (buckets t'') \<subseteq> insert b'' (set (buckets t1))"
    proof (cases "filled b'' \<le> 0")
      case True
      then have "buckets t'' = erase pos (buckets t1)" by (simp add: t''_def t' erase_update)
      then show ?thesis using set_erase_subset [of pos "buckets t1"] by auto
    next
      case False
      then have "buckets t'' = (buckets t1)[pos := b'']" by (simp add: t''_def t')
      then show ?thesis using set_update_subset_insert [of "buckets t1" pos b''] by simp
    qed
    have "slots_ok S t''" using sub ok1 len'' by (auto simp: slots_ok_def)
    moreover have "\<forall>b\<in>set (buckets t''). v \<notin> set (items b)" using sub absent1 nb'' by auto
    ultimately show ?thesis using S31 gett_absent [of S t'' v] by simp
  qed
  then show ?thesis using r by blast
qed

theorem removei_table_insert_witness:
  "\<exists>t''. removei 2 (0 :: nat)
     (fst (table_insert 2 0 \<lparr>buckets = [\<lparr>items = [7, 0], filled = 1, bucket_index = 0\<rparr>],
                             empty_stack = [], bucket_hiindex = 0\<rparr> 5))
     (snd (table_insert 2 (0 :: nat) \<lparr>buckets = [\<lparr>items = [7, 0], filled = 1, bucket_index = 0\<rparr>],
                             empty_stack = [], bucket_hiindex = 0\<rparr> 5)) = Inr (t'', 5) \<and>
     gett 2 t'' 5 = - 1"
  using removei_table_insert [of 2 "0 :: nat"
      "\<lparr>buckets = [\<lparr>items = [7, 0], filled = 1, bucket_index = 0\<rparr>],
        empty_stack = [], bucket_hiindex = 0\<rparr>" 5]
  by (simp add: inv_simps)

section \<open>Tables on which removei is only used for slots in use\<close>

lemma used_properly_reachable: "used_properly S T0 t \<Longrightarrow> reachable S T0 t"
proof (induction rule: used_properly.induct)
  case (constructed cache)
  show ?case by (rule reachable.constructed)
next
  case (inserted t v)
  then show ?case by (simp add: reachable.inserted)
next
  case (removed_value t v t' r)
  then show ?case using reachable.removed_value [of S T0 t v t' r] by simp
next
  case (removed_index t i t' x)
  then show ?case using reachable.removed_index [of S T0 t i t' x] by simp
qed

lemma cache_loop_exact: "exact S T0 t \<Longrightarrow> exact S T0 (cache_loop S T0 n t)"
proof (induction n arbitrary: t)
  case 0
  then show ?case by simp
next
  case (Suc n)
  then show ?case using exact_bucket [of S T0 t] by simp
qed

text \<open>
  When \<open>removei\<close> is only called for identifiers whose slot is in use, every fill
  counter stays exact.
\<close>

theorem used_properly_exact:
  assumes "used_properly S T0 t" and "0 < S" and "S < 2 ^ 31"
  shows "exact S T0 t"
  using assms
proof (induction rule: used_properly.induct)
  case (constructed cache)
  have "exact S T0 \<lparr>buckets = [], empty_stack = [], bucket_hiindex = 0\<rparr>" by (simp add: exact_def)
  then show ?case unfolding new_index_table_def by (rule cache_loop_exact)
next
  case (inserted t v)
  then show ?case using table_insert_exact [of S T0 t v] by simp
next
  case (removed_value t v t' r)
  then show ?case using removet_exact [of S T0 t v] by auto
next
  case (removed_index t i t' x)
  then show ?case using removei_exact [of S T0 t i] by auto
qed

text \<open>
  On such a table, whose identifiers fit \<open>int32_t\<close> also after one more bucket,
  \<open>geti(insert(v)) = v\<close> for every \<open>v\<close> other than \<open>T()\<close>.
\<close>

theorem roundtrip_used_properly:
  assumes u: "used_properly S T0 t" and S0: "0 < S" and v: "v \<noteq> T0"
    and range: "(bucket_hiindex t + 2) * int S \<le> 2 ^ 31"
  shows "geti S T0 (fst (table_insert S T0 t v)) (snd (table_insert S T0 t v)) = v"
proof -
  have ids: "ids_inv t" using reachable_shape [OF used_properly_reachable [OF u] S0] by simp
  then have "S < 2 ^ 31" using S0 range by (rule range_small)
  then have "exact S T0 t" using used_properly_exact [OF u S0] by simp
  then show ?thesis using ids S0 v range by (rule geti_table_insert)
qed

theorem roundtrip_used_properly_witness:
  "geti 2 (0 :: nat) (fst (table_insert 2 0 (new_index_table 2 0 1) 5))
     (snd (table_insert 2 (0 :: nat) (new_index_table 2 0 1) 5)) = 5"
  using roundtrip_used_properly [of 2 "0 :: nat" "new_index_table 2 0 1" 5]
    used_properly.constructed [of 2 "0 :: nat" 1]
  by (simp add: new_index_table_def bucket_def Let_def)

section \<open>Evaluation on concrete tables\<close>

text \<open>
  The tables below store natural numbers, with \<open>T() = 0\<close>.  Each theorem follows a
  sequence of calls from the constructor on, and writes every intermediate table out.
\<close>

lemma replicate_2: "replicate 2 x = [x, x]"
  by (simp add: numeral_2_eq_2)

lemma replicate_3: "replicate 3 x = [x, x, x]"
  by (simp add: numeral_3_eq_3)

lemmas eval_simps = int32_t_id table_index_int32 new_index_bucket_def get_index_def item_def bucket_insert_def bucket_remove_def
  bucket_insert_hpp_def bucket_remove_hpp_def store_def erase_def
  bucket_def first_def new_index_table_def count_def table_insert_def removet_def
  removei_def gett_def geti_def
  bucket_hpp_def first_hpp_def new_index_table_hpp_def table_insert_hpp_def removet_hpp_def
  removei_hpp_def gett_hpp_def geti_hpp_def size_t_def Let_def replicate_2 replicate_3

text \<open>
  C1.  The round trip \<open>geti(insert(v)) = v\<close> fails in both headers.

  In the revised header (the first six equations) it fails on the table reached by
  \<open>insert(7)\<close>, \<open>insert(8)\<close>, \<open>removei(2)\<close>, \<open>insert(9)\<close> with \<open>S = 3\<close>.
  Identifier 2 addresses a free slot of bucket 0; \<open>removei\<close> hands \<open>T()\<close> to
  \<open>index_bucket::remove\<close>, which finds that free slot and decrements \<open>filled\<close>.  After
  \<open>insert(9)\<close> the bucket is full with \<open>filled = 2\<close>, so \<open>insert(10)\<close> still chooses
  it, stores nothing and returns \<open>-1\<close>, and \<open>geti(-1)\<close> returns \<open>T()\<close>.

  In \<open>index_table.hpp\<close> (the last four equations) it fails without any removal: with
  \<open>S = 1\<close> the third bucket gets bucket index 1 again, so \<open>insert(9)\<close> returns the
  identifier of 8, and \<open>geti\<close> finds 8.
\<close>

theorem roundtrip_lost:
  "table_insert 3 (0::nat) (new_index_table 3 0 0) 7 =
     (\<lparr>buckets = [\<lparr>items = [7, 0, 0], filled = 1, bucket_index = 0\<rparr>],
       empty_stack = [], bucket_hiindex = 0\<rparr>, 0)
   \<and> table_insert 3 (0::nat)
       \<lparr>buckets = [\<lparr>items = [7, 0, 0], filled = 1, bucket_index = 0\<rparr>],
        empty_stack = [], bucket_hiindex = 0\<rparr> 8 =
     (\<lparr>buckets = [\<lparr>items = [7, 8, 0], filled = 2, bucket_index = 0\<rparr>],
       empty_stack = [], bucket_hiindex = 0\<rparr>, 1)
   \<and> removei 3 (0::nat)
       \<lparr>buckets = [\<lparr>items = [7, 8, 0], filled = 2, bucket_index = 0\<rparr>],
        empty_stack = [], bucket_hiindex = 0\<rparr> 2 =
     Inr (\<lparr>buckets = [\<lparr>items = [7, 8, 0], filled = 1, bucket_index = 0\<rparr>],
          empty_stack = [], bucket_hiindex = 0\<rparr>, 0)
   \<and> table_insert 3 (0::nat)
       \<lparr>buckets = [\<lparr>items = [7, 8, 0], filled = 1, bucket_index = 0\<rparr>],
        empty_stack = [], bucket_hiindex = 0\<rparr> 9 =
     (\<lparr>buckets = [\<lparr>items = [7, 8, 9], filled = 2, bucket_index = 0\<rparr>],
       empty_stack = [], bucket_hiindex = 0\<rparr>, 2)
   \<and> table_insert 3 (0::nat)
       \<lparr>buckets = [\<lparr>items = [7, 8, 9], filled = 2, bucket_index = 0\<rparr>],
        empty_stack = [], bucket_hiindex = 0\<rparr> 10 =
     (\<lparr>buckets = [\<lparr>items = [7, 8, 9], filled = 2, bucket_index = 0\<rparr>],
       empty_stack = [], bucket_hiindex = 0\<rparr>, - 1)
   \<and> geti 3 (0::nat)
       \<lparr>buckets = [\<lparr>items = [7, 8, 9], filled = 2, bucket_index = 0\<rparr>],
        empty_stack = [], bucket_hiindex = 0\<rparr> (- 1) = 0
   \<and> table_insert_hpp 1 (0::nat) (new_index_table_hpp 1 0 0) 7 =
     (\<lparr>buckets_hpp = [\<lparr>items = [7], filled = 1, bucket_index = 0\<rparr>], empty_hpp = []\<rparr>, 0)
   \<and> table_insert_hpp 1 (0::nat)
        \<lparr>buckets_hpp = [\<lparr>items = [7], filled = 1, bucket_index = 0\<rparr>], empty_hpp = []\<rparr> 8 =
     (\<lparr>buckets_hpp = [\<lparr>items = [7], filled = 1, bucket_index = 0\<rparr>,
                      \<lparr>items = [8], filled = 1, bucket_index = 1\<rparr>], empty_hpp = []\<rparr>, 1)
   \<and> table_insert_hpp 1 (0::nat)
        \<lparr>buckets_hpp = [\<lparr>items = [7], filled = 1, bucket_index = 0\<rparr>,
                      \<lparr>items = [8], filled = 1, bucket_index = 1\<rparr>], empty_hpp = []\<rparr> 9 =
     (\<lparr>buckets_hpp = [\<lparr>items = [7], filled = 1, bucket_index = 0\<rparr>,
                      \<lparr>items = [8], filled = 1, bucket_index = 1\<rparr>,
                      \<lparr>items = [9], filled = 1, bucket_index = 1\<rparr>], empty_hpp = []\<rparr>, 1)
   \<and> geti_hpp 1 (0::nat)
        \<lparr>buckets_hpp = [\<lparr>items = [7], filled = 1, bucket_index = 0\<rparr>,
                      \<lparr>items = [8], filled = 1, bucket_index = 1\<rparr>,
                      \<lparr>items = [9], filled = 1, bucket_index = 1\<rparr>], empty_hpp = []\<rparr> 1 = 8"
  by (simp add: eval_simps)

text \<open>
  C2.  \<open>removei\<close> of \<open>index_table.hpp\<close> does not return the removed value when the
  bucket stays in use (the first three equations): after \<open>insert(7)\<close> and \<open>insert(8)\<close>
  with \<open>S = 2\<close>, \<open>removei(0)\<close> clears the slot of 7 and returns \<open>T()\<close>.

  In the revised header \<open>removei(insert(v)) = v\<close> fails on the table of C1 whose bucket
  is full with \<open>filled = 2\<close>, a reachable table by \<open>reachable_full_bucket\<close> below (the
  last two equations): \<open>insert(10)\<close> returns \<open>-1\<close> and \<open>removei(-1)\<close> returns \<open>T()\<close>.
\<close>

theorem removei_loses_value:
  "table_insert_hpp 2 (0::nat) (new_index_table_hpp 2 0 0) 7 =
     (\<lparr>buckets_hpp = [\<lparr>items = [7, 0], filled = 1, bucket_index = 0\<rparr>], empty_hpp = []\<rparr>, 0)
   \<and> table_insert_hpp 2 (0::nat)
        \<lparr>buckets_hpp = [\<lparr>items = [7, 0], filled = 1, bucket_index = 0\<rparr>], empty_hpp = []\<rparr> 8 =
     (\<lparr>buckets_hpp = [\<lparr>items = [7, 8], filled = 2, bucket_index = 0\<rparr>], empty_hpp = []\<rparr>, 1)
   \<and> removei_hpp 2 (0::nat)
        \<lparr>buckets_hpp = [\<lparr>items = [7, 8], filled = 2, bucket_index = 0\<rparr>], empty_hpp = []\<rparr> 0 =
     Inr (\<lparr>buckets_hpp = [\<lparr>items = [0, 8], filled = 1, bucket_index = 0\<rparr>], empty_hpp = []\<rparr>, 0)
   \<and> table_insert 3 (0::nat)
       \<lparr>buckets = [\<lparr>items = [7, 8, 9], filled = 2, bucket_index = 0\<rparr>],
        empty_stack = [], bucket_hiindex = 0\<rparr> 10 =
     (\<lparr>buckets = [\<lparr>items = [7, 8, 9], filled = 2, bucket_index = 0\<rparr>],
       empty_stack = [], bucket_hiindex = 0\<rparr>, - 1)
   \<and> removei 3 (0::nat)
       \<lparr>buckets = [\<lparr>items = [7, 8, 9], filled = 2, bucket_index = 0\<rparr>],
        empty_stack = [], bucket_hiindex = 0\<rparr> (- 1) =
     Inr (\<lparr>buckets = [\<lparr>items = [7, 8, 9], filled = 2, bucket_index = 0\<rparr>],
          empty_stack = [], bucket_hiindex = 0\<rparr>, 0)"
  by (simp add: eval_simps)

text \<open>
  C3.  \<open>gett\<close> of \<open>index_table.hpp\<close> returns the offset in the bucket: with \<open>S = 2\<close>,
  after \<open>insert(7)\<close> and \<open>insert(8)\<close>, the value 9 is stored in the bucket with index 1
  at offset 0, \<open>insert(9)\<close> returns its identifier \<open>1 * 2 + 0 = 2\<close>, and \<open>gett(9)\<close>
  returns 0.
\<close>

theorem gett_hpp_returns_offset:
  "table_insert_hpp 2 (0::nat) (new_index_table_hpp 2 0 0) 7 =
     (\<lparr>buckets_hpp = [\<lparr>items = [7, 0], filled = 1, bucket_index = 0\<rparr>], empty_hpp = []\<rparr>, 0)
   \<and> table_insert_hpp 2 (0::nat)
        \<lparr>buckets_hpp = [\<lparr>items = [7, 0], filled = 1, bucket_index = 0\<rparr>], empty_hpp = []\<rparr> 8 =
     (\<lparr>buckets_hpp = [\<lparr>items = [7, 8], filled = 2, bucket_index = 0\<rparr>], empty_hpp = []\<rparr>, 1)
   \<and> table_insert_hpp 2 (0::nat)
        \<lparr>buckets_hpp = [\<lparr>items = [7, 8], filled = 2, bucket_index = 0\<rparr>], empty_hpp = []\<rparr> 9 =
     (\<lparr>buckets_hpp = [\<lparr>items = [7, 8], filled = 2, bucket_index = 0\<rparr>,
                      \<lparr>items = [9, 0], filled = 1, bucket_index = 1\<rparr>], empty_hpp = []\<rparr>, 2)
   \<and> gett_hpp 2
        \<lparr>buckets_hpp = [\<lparr>items = [7, 8], filled = 2, bucket_index = 0\<rparr>,
                        \<lparr>items = [9 :: nat, 0], filled = 1, bucket_index = 1\<rparr>], empty_hpp = []\<rparr> 9 = 0"
  by (simp add: eval_simps)

text \<open>
  C4.  The constructor of \<open>index_table.hpp\<close> with \<open>cache = 3\<close> creates buckets with
  the indices 0, 1, 1: every bucket after the first gets index 1.
\<close>

theorem new_index_table_hpp_duplicate_index:
  "new_index_table_hpp 2 (0::nat) 3 =
     \<lparr>buckets_hpp = [\<lparr>items = [0, 0], filled = 0, bucket_index = 0\<rparr>,
                     \<lparr>items = [0, 0], filled = 0, bucket_index = 1\<rparr>,
                     \<lparr>items = [0, 0], filled = 0, bucket_index = 1\<rparr>], empty_hpp = []\<rparr>"
  by (simp add: eval_simps numeral_3_eq_3)

text \<open>
  C5.  \<open>removei\<close> of \<open>index_table.hpp\<close> does not select the bucket by \<open>id / S\<close>:
  with \<open>S = 2\<close>, after \<open>insert(7)\<close>, \<open>insert(8)\<close> and \<open>insert(9)\<close>, identifier 2 belongs
  to the bucket with index 1 (it holds 9), and \<open>removei(2)\<close> removes 7 from the bucket
  with index 0.
\<close>

theorem removei_hpp_wrong_bucket:
  "table_insert_hpp 2 (0::nat) (new_index_table_hpp 2 0 0) 7 =
     (\<lparr>buckets_hpp = [\<lparr>items = [7, 0], filled = 1, bucket_index = 0\<rparr>], empty_hpp = []\<rparr>, 0)
   \<and> table_insert_hpp 2 (0::nat)
        \<lparr>buckets_hpp = [\<lparr>items = [7, 0], filled = 1, bucket_index = 0\<rparr>], empty_hpp = []\<rparr> 8 =
     (\<lparr>buckets_hpp = [\<lparr>items = [7, 8], filled = 2, bucket_index = 0\<rparr>], empty_hpp = []\<rparr>, 1)
   \<and> table_insert_hpp 2 (0::nat)
        \<lparr>buckets_hpp = [\<lparr>items = [7, 8], filled = 2, bucket_index = 0\<rparr>], empty_hpp = []\<rparr> 9 =
     (\<lparr>buckets_hpp = [\<lparr>items = [7, 8], filled = 2, bucket_index = 0\<rparr>,
                      \<lparr>items = [9, 0], filled = 1, bucket_index = 1\<rparr>], empty_hpp = []\<rparr>, 2)
   \<and> removei_hpp 2 (0::nat)
        \<lparr>buckets_hpp = [\<lparr>items = [7, 8], filled = 2, bucket_index = 0\<rparr>,
                        \<lparr>items = [9, 0], filled = 1, bucket_index = 1\<rparr>], empty_hpp = []\<rparr> 2 =
     Inr (\<lparr>buckets_hpp = [\<lparr>items = [0, 8], filled = 1, bucket_index = 0\<rparr>,
                        \<lparr>items = [9, 0], filled = 1, bucket_index = 1\<rparr>], empty_hpp = []\<rparr>, 0)"
  by (simp add: eval_simps)

text \<open>
  C6.  \<open>removet\<close> of \<open>index_table.hpp\<close> erases the drained bucket and pushes nothing:
  with \<open>S = 1\<close>, \<open>insert(7)\<close> and \<open>insert(8)\<close> create the buckets 0 and 1,
  \<open>removet(7)\<close> erases bucket 0 and leaves the stack empty, and the next \<open>bucket()\<close>
  creates a second bucket with index 1 instead of reusing index 0.
\<close>

theorem removet_hpp_pushes_nothing:
  "table_insert_hpp 1 (0::nat) (new_index_table_hpp 1 0 0) 7 =
     (\<lparr>buckets_hpp = [\<lparr>items = [7], filled = 1, bucket_index = 0\<rparr>], empty_hpp = []\<rparr>, 0)
   \<and> table_insert_hpp 1 (0::nat)
        \<lparr>buckets_hpp = [\<lparr>items = [7], filled = 1, bucket_index = 0\<rparr>], empty_hpp = []\<rparr> 8 =
     (\<lparr>buckets_hpp = [\<lparr>items = [7], filled = 1, bucket_index = 0\<rparr>,
                      \<lparr>items = [8], filled = 1, bucket_index = 1\<rparr>], empty_hpp = []\<rparr>, 1)
   \<and> removet_hpp 1 (0::nat)
        \<lparr>buckets_hpp = [\<lparr>items = [7], filled = 1, bucket_index = 0\<rparr>,
                      \<lparr>items = [8], filled = 1, bucket_index = 1\<rparr>], empty_hpp = []\<rparr> 7 =
     Inr (\<lparr>buckets_hpp = [\<lparr>items = [8], filled = 1, bucket_index = 1\<rparr>], empty_hpp = []\<rparr>, 0)
   \<and> bucket_hpp 1 (0::nat)
        \<lparr>buckets_hpp = [\<lparr>items = [8], filled = 1, bucket_index = 1\<rparr>], empty_hpp = []\<rparr> =
     (\<lparr>buckets_hpp = [\<lparr>items = [8], filled = 1, bucket_index = 1\<rparr>,
                       \<lparr>items = [0], filled = 0, bucket_index = 1\<rparr>], empty_hpp = []\<rparr>, 1)"
  by (simp add: eval_simps)

text \<open>
  C7.  \<open>removei\<close> of the revised header breaks the bucket invariant: after
  \<open>insert(7)\<close> and \<open>insert(8)\<close> with \<open>S = 3\<close>, \<open>removei(2)\<close> addresses the free slot
  of bucket 0 and leaves \<open>filled = 1\<close> in a bucket with two slots in use.
\<close>

theorem removei_free_slot_breaks_filled:
  "table_insert 3 (0::nat) (new_index_table 3 0 0) 7 =
     (\<lparr>buckets = [\<lparr>items = [7, 0, 0], filled = 1, bucket_index = 0\<rparr>],
       empty_stack = [], bucket_hiindex = 0\<rparr>, 0)
   \<and> table_insert 3 (0::nat)
       \<lparr>buckets = [\<lparr>items = [7, 0, 0], filled = 1, bucket_index = 0\<rparr>],
        empty_stack = [], bucket_hiindex = 0\<rparr> 8 =
     (\<lparr>buckets = [\<lparr>items = [7, 8, 0], filled = 2, bucket_index = 0\<rparr>],
       empty_stack = [], bucket_hiindex = 0\<rparr>, 1)
   \<and> removei 3 (0::nat)
       \<lparr>buckets = [\<lparr>items = [7, 8, 0], filled = 2, bucket_index = 0\<rparr>],
        empty_stack = [], bucket_hiindex = 0\<rparr> 2 =
     Inr (\<lparr>buckets = [\<lparr>items = [7, 8, 0], filled = 1, bucket_index = 0\<rparr>],
          empty_stack = [], bucket_hiindex = 0\<rparr>, 0)
   \<and> slots_used (0::nat) [7, 8, 0] = 2"
  by (simp add: eval_simps slots_used_def)

text \<open>
  On a bucket that was created by the constructor and never used, the same call
  decrements the \<open>size_t\<close> counter at 0, which leaves \<open>filled = 2^64 - 1 > S\<close>.
\<close>

theorem removei_free_slot_wraps_filled:
  "removei 2 (0::nat) (new_index_table 2 0 1) 0 =
     Inr (\<lparr>buckets = [\<lparr>items = [0, 0], filled = 18446744073709551615, bucket_index = 0\<rparr>],
           empty_stack = [], bucket_hiindex = 0\<rparr>, 0)"
  by (simp add: eval_simps)

text \<open>
  The table after \<open>insert(7)\<close>, \<open>insert(8)\<close>, \<open>removei(2)\<close> is a reachable table, so
  reachable tables need not have exact fill counters, and the round trip can fail on a
  reachable table.
\<close>

lemma reachable_corrupted:
  "reachable 3 (0 :: nat)
     \<lparr>buckets = [\<lparr>items = [7, 8, 0], filled = 1, bucket_index = 0\<rparr>],
      empty_stack = [], bucket_hiindex = 0\<rparr>"
proof -
  let ?t0 = "new_index_table 3 (0 :: nat) 0"
  let ?t1 = "\<lparr>buckets = [\<lparr>items = [7, 0, 0 :: nat], filled = 1, bucket_index = 0\<rparr>],
       empty_stack = [], bucket_hiindex = 0\<rparr>"
  let ?t2 = "\<lparr>buckets = [\<lparr>items = [7, 8, 0 :: nat], filled = 2, bucket_index = 0\<rparr>],
       empty_stack = [], bucket_hiindex = 0\<rparr>"
  let ?t3 = "\<lparr>buckets = [\<lparr>items = [7, 8, 0 :: nat], filled = 1, bucket_index = 0\<rparr>],
       empty_stack = [], bucket_hiindex = 0\<rparr>"
  have "reachable 3 0 ?t0" by (rule reachable.constructed)
  then have "reachable 3 0 (fst (table_insert 3 0 ?t0 7))" by (rule reachable.inserted) simp
  moreover have "fst (table_insert 3 0 ?t0 7) = ?t1" by (simp add: eval_simps)
  ultimately have "reachable 3 0 ?t1" by simp
  then have "reachable 3 0 (fst (table_insert 3 0 ?t1 8))" by (rule reachable.inserted) simp
  moreover have "fst (table_insert 3 0 ?t1 8) = ?t2" by (simp add: eval_simps)
  ultimately have "reachable 3 0 ?t2" by simp
  moreover have "removei 3 0 ?t2 2 = Inr (?t3, 0)" by (simp add: eval_simps)
  ultimately show "reachable 3 0 ?t3" by (rule reachable.removed_index)
qed

theorem reachable_not_exact: "\<exists>t. reachable 3 (0 :: nat) t \<and> \<not> exact 3 0 t"
proof -
  have "\<not> exact 3 (0 :: nat)
     \<lparr>buckets = [\<lparr>items = [7, 8, 0], filled = 1, bucket_index = 0\<rparr>],
      empty_stack = [], bucket_hiindex = 0\<rparr>"
    by (simp add: inv_simps)
  then show ?thesis using reachable_corrupted by blast
qed

lemma reachable_full_bucket:
  "reachable 3 (0 :: nat)
     \<lparr>buckets = [\<lparr>items = [7, 8, 9], filled = 2, bucket_index = 0\<rparr>],
      empty_stack = [], bucket_hiindex = 0\<rparr>"
proof -
  let ?t3 = "\<lparr>buckets = [\<lparr>items = [7, 8, 0 :: nat], filled = 1, bucket_index = 0\<rparr>],
       empty_stack = [], bucket_hiindex = 0\<rparr>"
  let ?t4 = "\<lparr>buckets = [\<lparr>items = [7, 8, 9 :: nat], filled = 2, bucket_index = 0\<rparr>],
       empty_stack = [], bucket_hiindex = 0\<rparr>"
  have "reachable 3 0 (fst (table_insert 3 0 ?t3 9))"
    using reachable_corrupted by (rule reachable.inserted) simp
  moreover have "fst (table_insert 3 0 ?t3 9) = ?t4" by (simp add: eval_simps)
  ultimately show "reachable 3 0 ?t4" by simp
qed

theorem reachable_roundtrip_lost:
  "\<exists>t v. reachable 3 (0 :: nat) t \<and> v \<noteq> 0 \<and>
     geti 3 0 (fst (table_insert 3 0 t v)) (snd (table_insert 3 0 t v)) \<noteq> v"
proof -
  let ?t4 = "\<lparr>buckets = [\<lparr>items = [7, 8, 9 :: nat], filled = 2, bucket_index = 0\<rparr>],
       empty_stack = [], bucket_hiindex = 0\<rparr>"
  have "geti 3 0 (fst (table_insert 3 0 ?t4 10)) (snd (table_insert 3 0 ?t4 10)) = 0"
    by (simp add: eval_simps)
  then show ?thesis using reachable_full_bucket by (intro exI [of _ ?t4] exI [of _ 10]) simp
qed

text \<open>
  C10.  \<open>index_bucket::remove\<close> of a value that is in no slot does not return \<open>-1\<close>
  untouched: the search yields \<open>index = S\<close>, the guard \<open>index >= 0\<close> holds, and the
  store \<open>items[S] = T()\<close> is reached, in both headers.
\<close>

theorem bucket_remove_absent_stores_out_of_bounds:
  "bucket_remove 2 (0::nat) \<lparr>items = [5, 0], filled = 1, bucket_index = 0\<rparr> 9 =
     Inl (OutOfBoundsStore 2)
   \<and> bucket_remove_hpp 2 (0::nat) \<lparr>items = [5, 0], filled = 1, bucket_index = 0\<rparr> 9 =
     Inl (OutOfBoundsStore 2)"
  by (simp add: eval_simps)

end
